theory Spec2Isabelle
  imports Main "HOL-Library.Multiset"
begin

section \<open>Python values shared by both notebooks\<close>

text \<open>
  The exceptions the modelled code can raise: \<^verbatim>\<open>tuple.index\<close> on a missing element
  and \<^verbatim>\<open>np.random.choice\<close> on an empty list raise ValueError, an index outside the
  list raises IndexError, a missing dictionary key raises KeyError.
\<close>

datatype py_error = ValueError | IndexError | KeyError

section \<open>Search problems, nodes and the three searches\<close>

text \<open>
  The searches only use a problem through \<^verbatim>\<open>start\<close>, \<^verbatim>\<open>goal\<close>, \<^verbatim>\<open>actions(state)\<close> and
  \<^verbatim>\<open>result(state, action)\<close>, so a problem is a record of these; states are tuples. The
  two methods are total functions here: a problem whose methods raise is outside the
  model. The 8-puzzle of the notebook is the instance \<open>Problem\<close> below.
\<close>

record ('e, 'a) problem =
  start :: "'e list"
  goal :: "'e list"
  actions :: "'e list \<Rightarrow> 'a list"
  result :: "'e list \<Rightarrow> 'a \<Rightarrow> 'e list"

definition is_goal_state :: "('e, 'a) problem \<Rightarrow> 'e list \<Rightarrow> bool" where
  "is_goal_state p s \<longleftrightarrow> goal p = s"

text \<open>
  \<^verbatim>\<open>Problem.h\<close>: the supplied heuristic applied to the state and the goal, or by default the
  number of positions at which the state differs from the goal (the goal is assumed to be
  at least as long as the state; Python raises IndexError otherwise).
\<close>

definition h :: "('e, 'a) problem \<Rightarrow> ('e list \<Rightarrow> 'e list \<Rightarrow> int) option \<Rightarrow> 'e list \<Rightarrow> int" where
  "h p func s =
     (case func of
        None \<Rightarrow> sum_list (map (\<lambda>i. 1) (filter (\<lambda>i. s ! i \<noteq> goal p ! i) [0..<length s]))
      | Some fn \<Rightarrow> fn s (goal p))"

datatype ('e, 'a) node =
  Node (state: "'e list") (parent: "('e, 'a) node option") (action: "'a option")
       (path_cost: int) (depth: nat) (f: int)

text \<open>\<^verbatim>\<open>Node.__init__\<close>: \<^verbatim>\<open>f\<close> starts as the path cost, the depth is one more than the parent's.\<close>

definition Node_init ::
  "'e list \<Rightarrow> ('e, 'a) node option \<Rightarrow> 'a option \<Rightarrow> int \<Rightarrow> ('e, 'a) node" where
  "Node_init s par act pc =
     Node s par act pc (case par of None \<Rightarrow> 0 | Some q \<Rightarrow> depth q + 1) pc"

definition child_node :: "('e, 'a) node \<Rightarrow> ('e, 'a) problem \<Rightarrow> 'a \<Rightarrow> ('e, 'a) node" where
  "child_node n p a =
     (let new_state = result p (state n) a;
          pc = path_cost n + 1
      in Node_init new_state (Some n) (Some a) pc)"

text \<open>The two attribute assignments the searches make on a node.\<close>

definition set_path_cost :: "('e, 'a) node \<Rightarrow> int \<Rightarrow> ('e, 'a) node" where
  "set_path_cost n pc = Node (state n) (parent n) (action n) pc (depth n) (f n)"

definition set_f :: "('e, 'a) node \<Rightarrow> int \<Rightarrow> ('e, 'a) node" where
  "set_f n v = Node (state n) (parent n) (action n) (path_cost n) (depth n) v"

text \<open>\<^verbatim>\<open>Node.__eq__\<close> compares states, \<^verbatim>\<open>Node.__lt__\<close> compares \<^verbatim>\<open>f\<close>.\<close>

definition node_eq :: "('e, 'a) node \<Rightarrow> ('e, 'a) node \<Rightarrow> bool" where
  "node_eq n m \<longleftrightarrow> state n = state m"

definition node_lt :: "('e, 'a) node \<Rightarrow> ('e, 'a) node \<Rightarrow> bool" where
  "node_lt n m \<longleftrightarrow> f n < f m"

text \<open>\<^verbatim>\<open>child in frontier\<close> on a list or deque of nodes.\<close>

definition in_frontier :: "('e, 'a) node \<Rightarrow> ('e, 'a) node list \<Rightarrow> bool" where
  "in_frontier c frontier \<longleftrightarrow> (\<exists>el\<in>set frontier. node_eq el c)"

text \<open>
  \<^verbatim>\<open>solution\<close>: walk the parent links appending each node, append the root, reverse.
\<close>

fun solution_walk :: "('e, 'a) node \<Rightarrow> ('e, 'a) node list \<Rightarrow> ('e, 'a) node list" where
  "solution_walk (Node s None act pc d v) res = res @ [Node s None act pc d v]"
| "solution_walk (Node s (Some q) act pc d v) res =
     solution_walk q (res @ [Node s (Some q) act pc d v])"

definition solution :: "('e, 'a) node \<Rightarrow> ('e, 'a) node list" where
  "solution n = rev (solution_walk n [])"

datatype ('e, 'a) search_result = Solution "('e, 'a) node list" | Failure | Cutoff

subsection \<open>Breadth-first search\<close>

text \<open>
  The \<^verbatim>\<open>for action in problem.actions(node.state)\<close> loop of \<^verbatim>\<open>breadth_first_search\<close>:
  \<open>Inl\<close> is the early \<^verbatim>\<open>return solution(child)\<close>, \<open>Inr\<close> the frontier after the loop.
\<close>

fun bfs_expand ::
  "('e, 'a) problem \<Rightarrow> ('e, 'a) node \<Rightarrow> 'a list \<Rightarrow> ('e, 'a) node list \<Rightarrow> 'e list set
   \<Rightarrow> ('e, 'a) node list + ('e, 'a) node list" where
  "bfs_expand p n [] frontier explored = Inr frontier"
| "bfs_expand p n (a # as) frontier explored =
     (let child = child_node n p a
      in if state child \<notin> explored \<and> \<not> in_frontier child frontier then
           (if is_goal_state p (state child) then Inl (solution child)
            else bfs_expand p n as (frontier @ [child]) explored)
         else bfs_expand p n as frontier explored)"

partial_function (option) bfs_loop ::
  "('e, 'a) problem \<Rightarrow> ('e, 'a) node list \<Rightarrow> 'e list set \<Rightarrow> ('e, 'a) search_result option" where
  "bfs_loop p frontier explored =
     (case frontier of
        [] \<Rightarrow> Some Failure
      | n # rest \<Rightarrow>
          (let explored' = insert (state n) explored
           in if depth n \<le> 10 then
                (case bfs_expand p n (actions p (state n)) rest explored' of
                   Inl sol \<Rightarrow> Some (Solution sol)
                 | Inr frontier' \<Rightarrow> bfs_loop p frontier' explored')
              else bfs_loop p rest explored'))"

declare bfs_loop.simps [code]

definition breadth_first_search :: "('e, 'a) problem \<Rightarrow> ('e, 'a) search_result option" where
  "breadth_first_search p =
     (let n = Node_init (start p) None None 0
      in if is_goal_state p (state n) then Some (Solution (solution n))
         else bfs_loop p [n] {})"

subsection \<open>Iterative deepening search\<close>

fun recursive_dls ::
      "('e, 'a) node \<Rightarrow> ('e, 'a) problem \<Rightarrow> nat \<Rightarrow> ('e, 'a) search_result"
  and dls_actions ::
      "('e, 'a) node \<Rightarrow> ('e, 'a) problem \<Rightarrow> nat \<Rightarrow> 'a list \<Rightarrow> bool \<Rightarrow> ('e, 'a) search_result"
where
  "recursive_dls n p 0 =
     (if is_goal_state p (state n) then Solution (solution n) else Cutoff)"
| "recursive_dls n p (Suc l) =
     (if is_goal_state p (state n) then Solution (solution n)
      else dls_actions n p l (actions p (state n)) False)"
| "dls_actions n p l [] cutoff_occured = (if cutoff_occured then Cutoff else Failure)"
| "dls_actions n p l (a # as) cutoff_occured =
     (let child = child_node n p a;
          r = recursive_dls child p l
      in if r = Cutoff then dls_actions n p l as True
         else if r \<noteq> Failure then r
         else dls_actions n p l as cutoff_occured)"

definition depth_limited_search :: "('e, 'a) problem \<Rightarrow> nat \<Rightarrow> ('e, 'a) search_result" where
  "depth_limited_search p limit = recursive_dls (Node_init (start p) None None 0) p limit"

text \<open>
  \<^verbatim>\<open>iterative_deepening_search\<close> returns from inside the loop over \<^verbatim>\<open>range(10)\<close>; when the
  loop ends there is no \<^verbatim>\<open>return\<close>, and the call evaluates to Python's \<^verbatim>\<open>None\<close>, which
  is \<open>None\<close> here.
\<close>

fun ids_loop :: "('e, 'a) problem \<Rightarrow> nat list \<Rightarrow> ('e, 'a) search_result option" where
  "ids_loop p [] = None"
| "ids_loop p (d # ds) =
     (let r = depth_limited_search p d
      in if r \<noteq> Cutoff then Some r else ids_loop p ds)"

definition iterative_deepening_search :: "('e, 'a) problem \<Rightarrow> ('e, 'a) search_result option" where
  "iterative_deepening_search p = ids_loop p [0..<10]"

subsection \<open>A* search\<close>

text \<open>
  The frontier of \<^verbatim>\<open>astar_search\<close> is a Python list handled by \<^verbatim>\<open>heapq\<close>. The functions
  below follow the library: \<^verbatim>\<open>_siftdown(heap, startpos, pos)\<close> moves the item at \<open>pos\<close>
  towards the root, \<^verbatim>\<open>_siftup(heap, pos)\<close> moves the smaller child up until a leaf is
  reached and then sifts the displaced item down from there. Items are compared with
  \<^verbatim>\<open>Node.__lt__\<close>.
\<close>

function siftdown_loop ::
  "('e, 'a) node list \<Rightarrow> nat \<Rightarrow> ('e, 'a) node \<Rightarrow> nat \<Rightarrow> ('e, 'a) node list" where
  "siftdown_loop heap startpos newitem pos =
     (if pos > startpos then
        (let parentpos = (pos - 1) div 2;
             parent_item = heap ! parentpos
         in if node_lt newitem parent_item
            then siftdown_loop (heap[pos := parent_item]) startpos newitem parentpos
            else heap[pos := newitem])
      else heap[pos := newitem])"
  by pat_completeness auto
termination
  by (relation "measure (\<lambda>(heap, startpos, newitem, pos). pos)") auto

declare siftdown_loop.simps [simp del]

definition siftdown :: "('e, 'a) node list \<Rightarrow> nat \<Rightarrow> nat \<Rightarrow> ('e, 'a) node list" where
  "siftdown heap startpos pos = siftdown_loop heap startpos (heap ! pos) pos"

function siftup_loop ::
  "('e, 'a) node list \<Rightarrow> nat \<Rightarrow> nat \<Rightarrow> ('e, 'a) node list \<times> nat" where
  "siftup_loop heap endpos pos =
     (let childpos = 2 * pos + 1
      in if childpos < endpos then
           (let rightpos = childpos + 1;
                childpos' = (if rightpos < endpos
                                \<and> \<not> node_lt (heap ! childpos) (heap ! rightpos)
                             then rightpos else childpos)
            in siftup_loop (heap[pos := heap ! childpos']) endpos childpos')
         else (heap, pos))"
  by pat_completeness auto
termination
  by (relation "measure (\<lambda>(heap, endpos, pos). endpos - pos)") (auto simp: Let_def)

declare siftup_loop.simps [simp del]

definition siftup :: "('e, 'a) node list \<Rightarrow> nat \<Rightarrow> ('e, 'a) node list" where
  "siftup heap pos =
     (let endpos = length heap;
          startpos = pos;
          newitem = heap ! pos
      in case siftup_loop heap endpos pos of
           (heap', pos') \<Rightarrow> siftdown (heap'[pos' := newitem]) startpos pos')"

definition heappush :: "('e, 'a) node list \<Rightarrow> ('e, 'a) node \<Rightarrow> ('e, 'a) node list" where
  "heappush heap item = siftdown (heap @ [item]) 0 (length heap)"

text \<open>\<^verbatim>\<open>heappop\<close> is only called on a non-empty frontier (\<^verbatim>\<open>while frontier\<close>).\<close>

definition heappop :: "('e, 'a) node list \<Rightarrow> ('e, 'a) node \<times> ('e, 'a) node list" where
  "heappop heap =
     (let lastelt = last heap;
          heap' = butlast heap
      in if heap' \<noteq> [] then (heap' ! 0, siftup (heap'[0 := lastelt]) 0)
         else (lastelt, heap'))"

text \<open>\<^verbatim>\<open>frontier.remove(el)\<close> removes the first element equal to \<open>el\<close> (\<^verbatim>\<open>Node.__eq__\<close>).\<close>

fun list_remove :: "('e, 'a) node list \<Rightarrow> ('e, 'a) node \<Rightarrow> ('e, 'a) node list" where
  "list_remove [] el = []"
| "list_remove (x # xs) el = (if node_eq x el then xs else x # list_remove xs el)"

lemma length_siftdown_loop [simp]:
  "length (siftdown_loop heap startpos newitem pos) = length heap"
  by (induction heap startpos newitem pos rule: siftdown_loop.induct)
     (subst siftdown_loop.simps, simp add: Let_def)

lemma length_heappush [simp]: "length (heappush heap item) = Suc (length heap)"
  by (simp add: heappush_def siftdown_def)

lemma length_list_remove:
  "in_frontier el xs \<Longrightarrow> length (list_remove xs el) = length xs - 1"
proof (induction xs)
  case Nil
  then show ?case by (simp add: in_frontier_def)
next
  case (Cons x xs)
  show ?case
  proof (cases "node_eq x el")
    case True
    then show ?thesis by simp
  next
    case False
    then have "in_frontier el xs" using Cons.prems by (auto simp: in_frontier_def)
    then have "length (list_remove xs el) = length xs - 1" "xs \<noteq> []"
      using Cons.IH by (auto simp: in_frontier_def)
    then show ?thesis using False by simp
  qed
qed

lemma in_frontier_nth: "i < length xs \<Longrightarrow> in_frontier (xs ! i) xs"
  by (auto simp: in_frontier_def node_eq_def)

text \<open>
  The loop \<^verbatim>\<open>for el in frontier\<close> of \<^verbatim>\<open>astar_search\<close> changes the list it iterates over.
  Python's list iterator keeps an index and reads the current list at each step, so the
  loop is a recursion on that index.
\<close>

function replace_loop ::
  "('e, 'a) node list \<Rightarrow> ('e, 'a) node \<Rightarrow> nat \<Rightarrow> ('e, 'a) node list" where
  "replace_loop frontier child i =
     (if i < length frontier then
        (let el = frontier ! i
         in if node_eq el child \<and> f child < f el
            then replace_loop (heappush (list_remove frontier el) child) child (i + 1)
            else replace_loop frontier child (i + 1))
      else frontier)"
  by pat_completeness auto
termination
  by (relation "measure (\<lambda>(frontier, child, i). length frontier - i)")
     (auto simp: length_list_remove in_frontier_nth)

fun astar_expand ::
  "('e, 'a) problem \<Rightarrow> ('e list \<Rightarrow> 'e list \<Rightarrow> int) option \<Rightarrow> ('e, 'a) node \<Rightarrow> 'a list
   \<Rightarrow> ('e, 'a) node list \<Rightarrow> 'e list set \<Rightarrow> ('e, 'a) node list" where
  "astar_expand p heuristic n [] frontier explored = frontier"
| "astar_expand p heuristic n (a # as) frontier explored =
     (let child0 = child_node n p a;
          child = set_f child0 (path_cost child0 + h p heuristic (state child0))
      in if state child \<notin> explored \<and> \<not> in_frontier child frontier then
           astar_expand p heuristic n as (heappush frontier child) explored
         else if in_frontier child frontier then
           astar_expand p heuristic n as (replace_loop frontier child 0) explored
         else astar_expand p heuristic n as frontier explored)"

partial_function (option) astar_loop ::
  "('e, 'a) problem \<Rightarrow> ('e list \<Rightarrow> 'e list \<Rightarrow> int) option \<Rightarrow> ('e, 'a) node list \<Rightarrow> 'e list set
   \<Rightarrow> ('e, 'a) search_result option" where
  "astar_loop p heuristic frontier explored =
     (if frontier = [] then Some Failure
      else (case heappop frontier of
              (n, frontier') \<Rightarrow>
                if is_goal_state p (state n) then Some (Solution (solution n))
                else (let explored' = insert (state n) explored
                      in if depth n \<le> 10 then
                           astar_loop p heuristic
                             (astar_expand p heuristic n (actions p (state n)) frontier' explored')
                             explored'
                         else astar_loop p heuristic frontier' explored')))"

declare astar_loop.simps [code]

text \<open>
  The root of \<^verbatim>\<open>astar_search\<close>: \<^verbatim>\<open>Node(problem.start)\<close>, whose \<^verbatim>\<open>path_cost\<close> is then
  assigned \<^verbatim>\<open>0 + problem.h(node.state, heuristic)\<close>; its \<^verbatim>\<open>f\<close> stays as \<^verbatim>\<open>__init__\<close> set it.
\<close>

definition astar_root ::
  "('e, 'a) problem \<Rightarrow> ('e list \<Rightarrow> 'e list \<Rightarrow> int) option \<Rightarrow> ('e, 'a) node" where
  "astar_root p heuristic =
     (let n = Node_init (start p) None None 0
      in set_path_cost n (0 + h p heuristic (state n)))"

definition astar_search ::
  "('e, 'a) problem \<Rightarrow> ('e list \<Rightarrow> 'e list \<Rightarrow> int) option \<Rightarrow> ('e, 'a) search_result option" where
  "astar_search p heuristic =
     (let n = astar_root p heuristic
      in if is_goal_state p (state n) then Some (Solution (solution n))
         else astar_loop p heuristic (heappush [] n) {})"

declare replace_loop.simps [simp del]

text \<open>
  An observer of a run of \<^verbatim>\<open>astar_search\<close>, not part of the program. It follows the loop
  step for step and reports whether some expansion finds the test
  \<^verbatim>\<open>el == child and child.f < el.f\<close> true for a frontier entry, that is, whether a frontier
  entry is ever replaced; a run that does not return gives no report.
\<close>

fun astar_expand_replaces ::
  "('e, 'a) problem \<Rightarrow> ('e list \<Rightarrow> 'e list \<Rightarrow> int) option \<Rightarrow> ('e, 'a) node \<Rightarrow> 'a list
   \<Rightarrow> ('e, 'a) node list \<Rightarrow> 'e list set \<Rightarrow> bool" where
  "astar_expand_replaces p heuristic n [] frontier explored = False"
| "astar_expand_replaces p heuristic n (a # as) frontier explored =
     (let child0 = child_node n p a;
          child = set_f child0 (path_cost child0 + h p heuristic (state child0))
      in if state child \<notin> explored \<and> \<not> in_frontier child frontier then
           astar_expand_replaces p heuristic n as (heappush frontier child) explored
         else if in_frontier child frontier then
           (\<exists>el\<in>set frontier. node_eq el child \<and> f child < f el)
           \<or> astar_expand_replaces p heuristic n as (replace_loop frontier child 0) explored
         else astar_expand_replaces p heuristic n as frontier explored)"

partial_function (option) astar_loop_replaces ::
  "('e, 'a) problem \<Rightarrow> ('e list \<Rightarrow> 'e list \<Rightarrow> int) option \<Rightarrow> ('e, 'a) node list \<Rightarrow> 'e list set
   \<Rightarrow> bool option" where
  "astar_loop_replaces p heuristic frontier explored =
     (if frontier = [] then Some False
      else (case heappop frontier of
              (n, frontier') \<Rightarrow>
                if is_goal_state p (state n) then Some False
                else (let explored' = insert (state n) explored
                      in if depth n \<le> 10 then
                           (if astar_expand_replaces p heuristic n (actions p (state n))
                                 frontier' explored'
                            then Some True
                            else astar_loop_replaces p heuristic
                                   (astar_expand p heuristic n (actions p (state n))
                                      frontier' explored')
                                   explored')
                         else astar_loop_replaces p heuristic frontier' explored')))"

declare astar_loop_replaces.simps [code]

definition astar_search_replaces ::
  "('e, 'a) problem \<Rightarrow> ('e list \<Rightarrow> 'e list \<Rightarrow> int) option \<Rightarrow> bool option" where
  "astar_search_replaces p heuristic =
     (let n = astar_root p heuristic
      in if is_goal_state p (state n) then Some False
         else astar_loop_replaces p heuristic (heappush [] n) {})"

subsection \<open>The 8-puzzle\<close>

text \<open>\<^verbatim>\<open>tuple.index(x)\<close>: the first position of \<open>x\<close>, ValueError if there is none.\<close>

fun tuple_index :: "'e list \<Rightarrow> 'e \<Rightarrow> py_error + nat" where
  "tuple_index [] x = Inl ValueError"
| "tuple_index (y # ys) x =
     (if y = x then Inr 0
      else (case tuple_index ys x of Inl e \<Rightarrow> Inl e | Inr i \<Rightarrow> Inr (Suc i)))"

text \<open>
  A Python index into a list of length \<open>n\<close>: negative indices count from the end, anything
  outside \<open>[-n, n)\<close> raises IndexError.
\<close>

definition list_pos :: "nat \<Rightarrow> int \<Rightarrow> py_error + nat" where
  "list_pos n i =
     (if 0 \<le> i \<and> i < int n then Inr (nat i)
      else if - int n \<le> i \<and> i < 0 then Inr (nat (int n + i))
      else Inl IndexError)"

definition Problem_actions :: "int list \<Rightarrow> py_error + string list" where
  "Problem_actions s =
     (case tuple_index s 0 of
        Inl e \<Rightarrow> Inl e
      | Inr ix \<Rightarrow>
          (let acts = [''left'', ''right'', ''up'', ''down''];
               acts = (if ix mod 3 = 0 then remove1 ''left'' acts else acts);
               acts = (if ix < 3 then remove1 ''up'' acts else acts);
               acts = (if ix mod 3 = 2 then remove1 ''right'' acts else acts);
               acts = (if ix > 5 then remove1 ''down'' acts else acts)
           in Inr acts))"

definition change :: "string \<Rightarrow> int option" where
  "change = map_of [(''left'', - 1), (''right'', 1), (''up'', - 3), (''down'', 3)]"

definition Problem_result :: "int list \<Rightarrow> string \<Rightarrow> py_error + int list" where
  "Problem_result s a =
     (case tuple_index s 0 of
        Inl e \<Rightarrow> Inl e
      | Inr blank_ix \<Rightarrow>
          (case change a of
             None \<Rightarrow> Inl KeyError
           | Some d \<Rightarrow>
               (let adjacent_ix = int blank_ix + d
                in case list_pos (length s) adjacent_ix of
                     Inl e \<Rightarrow> Inl e
                   | Inr j \<Rightarrow> Inr (s[blank_ix := s ! j, j := s ! blank_ix]))))"

text \<open>
  \<^verbatim>\<open>Problem(start, goal)\<close> as a search problem. Where a method raises, the record's total
  function returns no action and the unchanged state; on valid states no method raises.
\<close>

definition Problem :: "int list \<Rightarrow> int list \<Rightarrow> (int, string) problem" where
  "Problem st gl =
     \<lparr> start = st, goal = gl,
       actions = (\<lambda>s. case Problem_actions s of Inl e \<Rightarrow> [] | Inr acts \<Rightarrow> acts),
       result = (\<lambda>s a. case Problem_result s a of Inl e \<Rightarrow> s | Inr s' \<Rightarrow> s') \<rparr>"

definition valid_state :: "int list \<Rightarrow> bool" where
  "valid_state s \<longleftrightarrow> length s = 9 \<and> set s = {0..8}"

subsection \<open>Paths\<close>

text \<open>
  The nodes a search can build: the root, and any \<^verbatim>\<open>child_node\<close> of a node already built.
\<close>

inductive reachable_node ::
  "('e, 'a) problem \<Rightarrow> ('e, 'a) node \<Rightarrow> ('e, 'a) node \<Rightarrow> bool" for p root where
  reach_root: "reachable_node p root root"
| reach_child: "reachable_node p root n \<Longrightarrow> reachable_node p root (child_node n p a)"

text \<open>
  The actions of a path returned by \<^verbatim>\<open>solution\<close>: the \<^verbatim>\<open>action\<close> of every node after the
  root.
\<close>

definition path_actions :: "('e, 'a) node list \<Rightarrow> 'a list" where
  "path_actions ns = List.map_filter action (tl ns)"

text \<open>
  An action sequence leads from a state when each action is among \<^verbatim>\<open>actions\<close> of the state
  it is applied to; \<open>reach_in p k s\<close> says that such a sequence of length \<open>k\<close> leads from
  the start state to \<open>s\<close>.
\<close>

fun legal :: "('e, 'a) problem \<Rightarrow> 'e list \<Rightarrow> 'a list \<Rightarrow> bool" where
  "legal p s [] = True"
| "legal p s (a # as) = (a \<in> set (actions p s) \<and> legal p (result p s a) as)"

definition reach_in :: "('e, 'a) problem \<Rightarrow> nat \<Rightarrow> 'e list \<Rightarrow> bool" where
  "reach_in p k s \<longleftrightarrow>
     (\<exists>as. length as = k \<and> legal p (start p) as \<and> foldl (result p) (start p) as = s)"

text \<open>
  The nodes the searches build: every child comes from an action of its parent's state.
\<close>

inductive legal_node ::
  "('e, 'a) problem \<Rightarrow> ('e, 'a) node \<Rightarrow> ('e, 'a) node \<Rightarrow> bool" for p root where
  legal_root: "legal_node p root root"
| legal_child: "legal_node p root n \<Longrightarrow> a \<in> set (actions p (state n))
     \<Longrightarrow> legal_node p root (child_node n p a)"

text \<open>
  The invariant of the loop of \<^verbatim>\<open>breadth_first_search\<close>. The frontier holds nodes built by
  legal actions, in order of depth and at most one level apart; no frontier state can be
  reached in fewer steps than its node's depth; the start state has been seen; and every
  explored state within ten steps of the start has had all its successors seen.
\<close>

definition discovered :: "('e, 'a) node list \<Rightarrow> 'e list set \<Rightarrow> 'e list set" where
  "discovered frontier explored = state ` set frontier \<union> explored"

definition bfs_inv :: "('e, 'a) problem \<Rightarrow> ('e, 'a) node list \<Rightarrow> 'e list set \<Rightarrow> bool" where
  "bfs_inv p frontier explored \<longleftrightarrow>
     (\<forall>n\<in>set frontier. legal_node p (Node_init (start p) None None 0) n)
   \<and> sorted (map depth frontier)
   \<and> (\<forall>n\<in>set frontier. depth n \<le> depth (hd frontier) + 1)
   \<and> (\<forall>n\<in>set frontier. \<forall>k. reach_in p k (state n) \<longrightarrow> depth n \<le> k)
   \<and> start p \<in> discovered frontier explored
   \<and> (\<forall>t\<in>explored. \<forall>k\<le>10. reach_in p k t \<longrightarrow>
         (\<forall>a\<in>set (actions p t). result p t a \<in> discovered frontier explored))"

text \<open>
  A search problem with no solution within reach, used as a test input: the states are
  the 1-tuples \<open>(n)\<close>, the only action increments \<open>n\<close>, the start is \<open>(0)\<close> and the goal
  \<open>(10)\<close>, ten steps away.
\<close>

definition chain_problem :: "(nat, unit) problem" where
  "chain_problem =
     \<lparr> start = [0], goal = [10], actions = (\<lambda>s. [()]), result = (\<lambda>s a. map Suc s) \<rparr>"

text \<open>
  A node whose parent chain is a path of legal actions from the start state; unlike
  \<open>legal_node\<close> it says nothing about \<^verbatim>\<open>path_cost\<close> and \<^verbatim>\<open>f\<close>, which \<^verbatim>\<open>astar_search\<close>
  overwrites.
\<close>

inductive path_node :: "('e, 'a) problem \<Rightarrow> ('e, 'a) node \<Rightarrow> bool" for p where
  path_root: "parent n = None \<Longrightarrow> action n = None \<Longrightarrow> state n = start p \<Longrightarrow> depth n = 0
     \<Longrightarrow> path_node p n"
| path_child: "path_node p q \<Longrightarrow> parent n = Some q \<Longrightarrow> action n = Some a
     \<Longrightarrow> a \<in> set (actions p (state q)) \<Longrightarrow> state n = result p (state q) a
     \<Longrightarrow> depth n = depth q + 1 \<Longrightarrow> path_node p n"

definition astar_inv :: "('e, 'a) problem \<Rightarrow> ('e, 'a) node list \<Rightarrow> bool" where
  "astar_inv p frontier \<longleftrightarrow> (\<forall>n\<in>set frontier. path_node p n \<and> depth n \<le> 11)"

text \<open>
  A heuristic is admissible when its value at a state never exceeds the length of any
  action sequence leading from that state to the goal.
\<close>

definition admissible ::
  "('e, 'a) problem \<Rightarrow> ('e list \<Rightarrow> 'e list \<Rightarrow> int) option \<Rightarrow> bool" where
  "admissible p heuristic \<longleftrightarrow>
     (\<forall>s as. legal p s as \<and> is_goal_state p (foldl (result p) s as)
        \<longrightarrow> h p heuristic s \<le> int (length as))"

text \<open>The actions of a returned path, if a path was returned.\<close>

definition solution_actions :: "('e, 'a) search_result option \<Rightarrow> 'a list option" where
  "solution_actions r =
     (case r of Some (Solution ns) \<Rightarrow> Some (path_actions ns) | _ \<Rightarrow> None)"

text \<open>
  A test input for \<^verbatim>\<open>astar_search\<close>: seven states \<open>(0), \<dots>, (6)\<close>, an action names the
  successor state. State \<open>(4)\<close> is reached from the start \<open>(0)\<close> through \<open>(1)\<close> in two steps
  and through \<open>(2), (3)\<close> in three; the goal \<open>(6)\<close> lies two steps behind \<open>(4)\<close>. The
  heuristic gives \<open>(1)\<close> its true distance 3 and \<open>(5)\<close> its true distance 1, every other
  state 0.
\<close>

definition detour_problem :: "(nat, nat) problem" where
  "detour_problem =
     \<lparr> start = [0], goal = [6],
       actions = (\<lambda>s. if s = [0] then [1, 2] else if s = [1] then [4]
                       else if s = [2] then [3] else if s = [3] then [4]
                       else if s = [4] then [5] else if s = [5] then [6] else []),
       result = (\<lambda>s a. [a]) \<rparr>"

definition detour_h :: "nat list \<Rightarrow> nat list \<Rightarrow> int" where
  "detour_h s g = (if s = [1] then 3 else if s = [5] then 1 else 0)"

text \<open>
  A heuristic is consistent when it is 0 at the goal and drops by at most the step cost 1
  along every action.
\<close>

definition consistent ::
  "('e, 'a) problem \<Rightarrow> ('e list \<Rightarrow> 'e list \<Rightarrow> int) option \<Rightarrow> bool" where
  "consistent p heuristic \<longleftrightarrow>
     h p heuristic (goal p) = 0
   \<and> (\<forall>s a. a \<in> set (actions p s) \<longrightarrow> h p heuristic s \<le> 1 + h p heuristic (result p s a))"

text \<open>
  A second test input for \<^verbatim>\<open>astar_search\<close>, with a consistent heuristic. State \<open>(4)\<close> is put
  on the frontier through \<open>(1), (2)\<close> and found again, cheaper, through \<open>(3)\<close>, so that its
  frontier entry is replaced; \<open>(5)\<close> is reached through \<open>(1), (2)\<close> in three steps and
  through \<open>(6)\<close> in two, and the goal \<open>(14)\<close> lies five steps behind \<open>(5)\<close>. The states
  \<open>(7), (8), (9), (15)\<close> have no actions.
\<close>

definition replace_problem :: "(nat, nat) problem" where
  "replace_problem =
     \<lparr> start = [0], goal = [14],
       actions = (\<lambda>s. if s = [0] then [6, 7, 8, 9, 1, 3, 15] else if s = [1] then [2]
                       else if s = [2] then [5, 4] else if s = [3] then [4]
                       else if s = [6] then [5] else if s = [5] then [10]
                       else if s = [10] then [11] else if s = [11] then [12]
                       else if s = [12] then [13] else if s = [13] then [14] else []),
       result = (\<lambda>s a. [a]) \<rparr>"

definition replace_h :: "nat list \<Rightarrow> nat list \<Rightarrow> int" where
  "replace_h s g =
     (if s = [3] then 2 else if s = [4] then 3 else if s = [5] then 5
      else if s = [6] then 6 else if s = [7] then 3 else if s = [8] then 9
      else if s = [9] then 20 else if s = [15] then 30
      else if s = [10] then 4 else if s = [11] then 3
      else if s = [12] then 2 else if s = [13] then 1 else 0)"

text \<open>
  The heap property of \<^verbatim>\<open>heapq\<close> on a frontier list, with \<^verbatim>\<open>Node.__lt__\<close> as the order: no
  entry has a smaller \<open>f\<close> than the entry at its parent index \<open>(i - 1) div 2\<close>.
  \<open>hole_ok xs pos\<close> is the property that holds while \<^verbatim>\<open>_siftup\<close> and \<^verbatim>\<open>_siftdown\<close> move an
  item through position \<open>pos\<close>: every pair of parent and child not involving \<open>pos\<close> is in
  order, and so are the parent of \<open>pos\<close> and the children of \<open>pos\<close>.
\<close>

definition heap_ok :: "('e, 'a) node list \<Rightarrow> bool" where
  "heap_ok xs \<longleftrightarrow> (\<forall>i. 0 < i \<and> i < length xs \<longrightarrow> f (xs ! ((i - 1) div 2)) \<le> f (xs ! i))"

definition hole_ok :: "('e, 'a) node list \<Rightarrow> nat \<Rightarrow> bool" where
  "hole_ok xs pos \<longleftrightarrow>
     pos < length xs
   \<and> (\<forall>i. 0 < i \<and> i < length xs \<and> i \<noteq> pos \<and> (i - 1) div 2 \<noteq> pos
          \<longrightarrow> f (xs ! ((i - 1) div 2)) \<le> f (xs ! i))
   \<and> (\<forall>c. 0 < c \<and> c < length xs \<and> (c - 1) div 2 = pos \<and> 0 < pos
          \<longrightarrow> f (xs ! ((pos - 1) div 2)) \<le> f (xs ! c))"

text \<open>
  The invariant of the loop of \<^verbatim>\<open>astar_search\<close> for runs that replace no frontier entry.
  Every frontier node lies on a path of legal actions, its \<^verbatim>\<open>path_cost\<close> is its depth plus
  the heuristic value of the start state (the value the root's \<^verbatim>\<open>path_cost\<close> is set to) and
  its \<^verbatim>\<open>f\<close> adds the heuristic value of its own state; the frontier is a heap, holds each
  state at most once and no explored state; and every explored state within ten steps of
  the start has each successor either explored or on the frontier at a depth of at most
  one more.
\<close>

definition good_node ::
  "('e, 'a) problem \<Rightarrow> ('e list \<Rightarrow> 'e list \<Rightarrow> int) option \<Rightarrow> ('e, 'a) node \<Rightarrow> bool" where
  "good_node p heuristic n \<longleftrightarrow>
     path_node p n \<and> depth n \<le> 11
   \<and> path_cost n = int (depth n) + h p heuristic (start p)
   \<and> f n = path_cost n + h p heuristic (state n)"

definition closed_on ::
  "('e, 'a) problem \<Rightarrow> 'e list set \<Rightarrow> ('e, 'a) node list \<Rightarrow> 'e list set \<Rightarrow> bool" where
  "closed_on p T frontier explored \<longleftrightarrow>
     (\<forall>t\<in>T. \<forall>k\<le>10. reach_in p k t \<longrightarrow>
        (\<forall>a\<in>set (actions p t). result p t a \<in> explored
           \<or> (\<exists>m\<in>set frontier. state m = result p t a \<and> depth m \<le> k + 1)))"

definition astar_base ::
  "('e, 'a) problem \<Rightarrow> ('e list \<Rightarrow> 'e list \<Rightarrow> int) option \<Rightarrow> ('e, 'a) node list \<Rightarrow> 'e list set
   \<Rightarrow> bool" where
  "astar_base p heuristic frontier explored \<longleftrightarrow>
     heap_ok frontier
   \<and> (\<forall>n\<in>set frontier. good_node p heuristic n)
   \<and> distinct (map state frontier)
   \<and> state ` set frontier \<inter> explored = {}"

definition astar_opt_inv ::
  "('e, 'a) problem \<Rightarrow> ('e list \<Rightarrow> 'e list \<Rightarrow> int) option \<Rightarrow> ('e, 'a) node list \<Rightarrow> 'e list set
   \<Rightarrow> bool" where
  "astar_opt_inv p heuristic frontier explored \<longleftrightarrow>
     astar_base p heuristic frontier explored \<and> start p \<in> explored
   \<and> closed_on p explored frontier explored"

section \<open>The N-Queens constraint satisfaction problem\<close>

text \<open>
  An assignment is a Python dict from variable (row) to value (column). Python dicts keep
  insertion order and \<^verbatim>\<open>items()\<close> iterates in that order, so the dict is an association
  list with distinct keys. The board size \<^verbatim>\<open>self.N\<close> is passed explicitly.
\<close>

type_synonym assignment = "(int \<times> int) list"

definition dict_keys :: "assignment \<Rightarrow> int list" where
  "dict_keys a = map fst a"

text \<open>\<^verbatim>\<open>d[k] = v\<close>: an existing key keeps its position, a new key is appended.\<close>

fun dict_set :: "assignment \<Rightarrow> int \<Rightarrow> int \<Rightarrow> assignment" where
  "dict_set [] k v = [(k, v)]"
| "dict_set ((k', v') # rest) k v =
     (if k' = k then (k, v) # rest else (k', v') # dict_set rest k v)"

text \<open>\<^verbatim>\<open>range(N)\<close> as a list of Python ints; empty when \<open>N \<le> 0\<close>.\<close>

definition range_py :: "int \<Rightarrow> int list" where
  "range_py N = map int [0..<nat N]"

definition is_complete :: "int \<Rightarrow> assignment \<Rightarrow> bool" where
  "is_complete N a \<longleftrightarrow> int (length a) = N"

definition is_conflict :: "int \<Rightarrow> int \<Rightarrow> int \<Rightarrow> int \<Rightarrow> bool" where
  "is_conflict x1 x2 y1 y2 \<longleftrightarrow>
     (let in_same_row = (x1 = x2);
          in_same_col = (y1 = y2);
          in_same_diagonal = (\<bar>x1 - x2\<bar> = \<bar>y1 - y2\<bar>)
      in in_same_row \<or> in_same_col \<or> in_same_diagonal)"

fun is_consistent :: "int \<Rightarrow> int \<Rightarrow> assignment \<Rightarrow> bool" where
  "is_consistent var val [] = True"
| "is_consistent var val ((k, v) # rest) =
     (if k \<noteq> var \<and> is_conflict k var v val then False
      else is_consistent var val rest)"

definition n_conflicts :: "int \<Rightarrow> int \<Rightarrow> assignment \<Rightarrow> int" where
  "n_conflicts var val a =
     sum_list (map (\<lambda>(k, v). if is_conflict var k val v then 1 else 0)
                   (filter (\<lambda>(k, v). k \<noteq> var) a))"

definition conflicted_vars :: "assignment \<Rightarrow> int list" where
  "conflicted_vars a = map fst (filter (\<lambda>(k, v). \<not> is_consistent k v a) a)"

definition is_solution :: "int \<Rightarrow> assignment \<Rightarrow> bool" where
  "is_solution N a \<longleftrightarrow> is_complete N a \<and> length (conflicted_vars a) = 0"

subsection \<open>Backtracking: variable and value ordering\<close>

definition remaining_legal_values :: "int \<Rightarrow> int \<Rightarrow> assignment \<Rightarrow> int list" where
  "remaining_legal_values N var a =
     filter (\<lambda>val. is_consistent var val a) (range_py N)"

text \<open>
  The loop of \<^verbatim>\<open>select_unassigned_variable\<close> over \<^verbatim>\<open>unassigned[1:]\<close>: the current best
  is replaced whenever the next candidate has no more legal values (\<^verbatim>\<open><=\<close>).
\<close>

fun mrv_loop :: "int \<times> int list \<Rightarrow> (int \<times> int list) list \<Rightarrow> int \<times> int list" where
  "mrv_loop (var, val) [] = (var, val)"
| "mrv_loop (var, val) ((k, v) # rest) =
     (if length v \<le> length val then mrv_loop (k, v) rest
      else mrv_loop (var, val) rest)"

definition unassigned_vars :: "int \<Rightarrow> assignment \<Rightarrow> (int \<times> int list) list" where
  "unassigned_vars N a =
     map (\<lambda>var. (var, remaining_legal_values N var a))
         (filter (\<lambda>var. var \<notin> set (dict_keys a)) (range_py N))"

text \<open>\<^verbatim>\<open>unassigned[0]\<close> raises IndexError when every variable is assigned.\<close>

definition select_unassigned_variable ::
  "int \<Rightarrow> assignment \<Rightarrow> py_error + (int \<times> int list)" where
  "select_unassigned_variable N a =
     (case unassigned_vars N a of
        [] \<Rightarrow> Inl IndexError
      | u # us \<Rightarrow> Inr (mrv_loop u us))"

text \<open>
  \<^verbatim>\<open>n_choices_ruled_out\<close>: how many of the neighbor's remaining legal values conflict
  with the pair \<open>var, val\<close>.
\<close>

definition n_choices_ruled_out :: "int \<Rightarrow> int \<Rightarrow> int \<Rightarrow> int \<Rightarrow> assignment \<Rightarrow> int" where
  "n_choices_ruled_out N var val neighbor a =
     (let legal_values = remaining_legal_values N neighbor a
      in sum_list (map (\<lambda>v. 1) (filter (\<lambda>v. is_conflict var neighbor val v) legal_values)))"

text \<open>
  The neighbor list of \<^verbatim>\<open>order_domain_values\<close>: \<^verbatim>\<open>[var - 1, var + 1]\<close>, from which
  \<^verbatim>\<open>var - 1\<close> is removed if it is assigned, and \<^verbatim>\<open>var + 1\<close> only in the \<^verbatim>\<open>elif\<close> branch,
  that is, only if \<^verbatim>\<open>var - 1\<close> is not assigned.
\<close>

definition lcv_neighbors :: "int \<Rightarrow> assignment \<Rightarrow> int list" where
  "lcv_neighbors var a =
     (let neighbors = [var - 1, var + 1]
      in if (var - 1) \<in> set (dict_keys a) then remove1 (var - 1) neighbors
         else if (var + 1) \<in> set (dict_keys a) then remove1 (var + 1) neighbors
         else neighbors)"

text \<open>
  \<^verbatim>\<open>sorted(result, key=lambda x: x[1])\<close> is a stable sort, as is \<^const>\<open>sort_key\<close>.
\<close>

definition order_domain_values :: "int \<Rightarrow> int \<Rightarrow> int list \<Rightarrow> assignment \<Rightarrow> int list" where
  "order_domain_values N var values a =
     (let neighbors = lcv_neighbors var a;
          result = map (\<lambda>val. (val, sum_list (map (\<lambda>neighbor.
                      n_choices_ruled_out N var val neighbor a) neighbors))) values
      in map fst (sort_key snd result))"

text \<open>
  The behaviour the specification describes for the same function: every neighbor that
  is already assigned is left out. Used only to compare with the code.
\<close>

definition lcv_neighbors_spec :: "int \<Rightarrow> assignment \<Rightarrow> int list" where
  "lcv_neighbors_spec var a =
     filter (\<lambda>neighbor. neighbor \<notin> set (dict_keys a)) [var - 1, var + 1]"

definition order_domain_values_spec ::
  "int \<Rightarrow> int \<Rightarrow> int list \<Rightarrow> assignment \<Rightarrow> int list" where
  "order_domain_values_spec N var values a =
     (let neighbors = lcv_neighbors_spec var a;
          result = map (\<lambda>val. (val, sum_list (map (\<lambda>neighbor.
                      n_choices_ruled_out N var val neighbor a) neighbors))) values
      in map fst (sort_key snd result))"

subsection \<open>Min-conflicts local search\<close>

text \<open>
  \<^verbatim>\<open>self.cache\<close> maps a variable to the list of values tried for it. The loop of
  \<^verbatim>\<open>min_conflicts_val\<close> over \<^verbatim>\<open>range(self.N)\<close> carries \<^verbatim>\<open>metric\<close> and \<^verbatim>\<open>value\<close>; the function
  also stores the (possibly reset) list back into the cache, so the model returns the
  new cache with the value.
\<close>

type_synonym cache = "int \<Rightarrow> int list option"

definition cache_get :: "cache \<Rightarrow> int \<Rightarrow> int list" where
  "cache_get c var = (case c var of None \<Rightarrow> [] | Some l \<Rightarrow> l)"

fun mcv_loop :: "int \<Rightarrow> assignment \<Rightarrow> int list \<Rightarrow> int list \<Rightarrow> int \<Rightarrow> int \<Rightarrow> int" where
  "mcv_loop var a values_tried [] metric value = value"
| "mcv_loop var a values_tried (val # vals) metric value =
     (if val \<notin> set values_tried then
        (let num = n_conflicts var val a
         in if num \<le> metric then mcv_loop var a values_tried vals num val
            else mcv_loop var a values_tried vals metric value)
      else mcv_loop var a values_tried vals metric value)"

definition values_tried_of :: "int \<Rightarrow> cache \<Rightarrow> int \<Rightarrow> int list" where
  "values_tried_of N c var =
     (let values_tried = cache_get c var
      in if int (length values_tried) = N then [] else values_tried)"

definition min_conflicts_val :: "int \<Rightarrow> cache \<Rightarrow> int \<Rightarrow> assignment \<Rightarrow> int \<times> cache" where
  "min_conflicts_val N c var a =
     (let values_tried = values_tried_of N c var;
          c' = c(var \<mapsto> values_tried)
      in (mcv_loop var a values_tried (range_py N) N (- 1), c'))"

text \<open>
  The random draws are inputs of the model: \<open>draw i\<close> is the column
  \<^verbatim>\<open>np.random.randint(0, N)\<close> gives row \<open>i\<close> in \<^verbatim>\<open>__init__\<close>, and \<^verbatim>\<open>np.random.choice\<close> picks
  the element at index \<open>r mod length xs\<close> for a draw \<open>r\<close>; on an empty list it raises
  ValueError.
\<close>

definition random_choice :: "int list \<Rightarrow> nat \<Rightarrow> py_error + int" where
  "random_choice xs r = (if xs = [] then Inl ValueError else Inr (xs ! (r mod length xs)))"

definition init_assignment :: "int \<Rightarrow> (int \<Rightarrow> int) \<Rightarrow> assignment" where
  "init_assignment N draw = map (\<lambda>i. (i, draw i)) (range_py N)"

definition init_cache :: "assignment \<Rightarrow> cache" where
  "init_cache a = fold (\<lambda>(k, v) c. c(k \<mapsto> cache_get c k @ [v])) a Map.empty"

definition init_state :: "int \<Rightarrow> (int \<Rightarrow> int) \<Rightarrow> assignment \<times> cache" where
  "init_state N draw = (init_assignment N draw, init_cache (init_assignment N draw))"

text \<open>
  One iteration of \<^verbatim>\<open>min_conflicts_solver\<close> after the solution check: choose a conflicted
  variable, compute its value, commit it and record it in the cache.
\<close>

definition mc_repair :: "int \<Rightarrow> nat \<Rightarrow> assignment \<times> cache \<Rightarrow> py_error + (assignment \<times> cache)" where
  "mc_repair N r s =
     (case s of (current, c) \<Rightarrow>
        (case random_choice (conflicted_vars current) r of
           Inl e \<Rightarrow> Inl e
         | Inr var \<Rightarrow>
             (case min_conflicts_val N c var current of (val, c1) \<Rightarrow>
                Inr (dict_set current var val, c1(var \<mapsto> cache_get c1 var @ [val])))))"

datatype solver_result = Solved nat assignment | Failed

fun min_conflicts_loop ::
  "int \<Rightarrow> (nat \<Rightarrow> nat) \<Rightarrow> nat \<Rightarrow> nat \<Rightarrow> assignment \<times> cache \<Rightarrow> py_error + solver_result" where
  "min_conflicts_loop N rs n_iter 0 s = Inr Failed"
| "min_conflicts_loop N rs n_iter (Suc k) s =
     (if is_solution N (fst s) then Inr (Solved n_iter (fst s))
      else (case mc_repair N (rs n_iter) s of
              Inl e \<Rightarrow> Inl e
            | Inr s' \<Rightarrow> min_conflicts_loop N rs (Suc n_iter) k s'))"

definition min_conflicts_solver ::
  "int \<Rightarrow> (int \<Rightarrow> int) \<Rightarrow> (nat \<Rightarrow> nat) \<Rightarrow> nat \<Rightarrow> py_error + solver_result" where
  "min_conflicts_solver N draw rs max_steps =
     min_conflicts_loop N rs 0 max_steps (init_state N draw)"

text \<open>
  The solver's state at the start of iteration \<open>n\<close>, if the loop gets that far: \<open>None\<close>
  once the loop has returned or raised.
\<close>

fun mc_state_at :: "int \<Rightarrow> (nat \<Rightarrow> nat) \<Rightarrow> nat \<Rightarrow> assignment \<times> cache \<Rightarrow> (assignment \<times> cache) option" where
  "mc_state_at N rs 0 s = Some s"
| "mc_state_at N rs (Suc n) s =
     (case mc_state_at N rs n s of
        None \<Rightarrow> None
      | Some s' \<Rightarrow>
          (if is_solution N (fst s') then None
           else (case mc_repair N (rs n) s' of Inl e \<Rightarrow> None | Inr s'' \<Rightarrow> Some s'')))"

text \<open>
  The invariant of the solver's state: the assignment has exactly the keys \<open>0, \<dots>, N - 1\<close>
  in order, every assigned value and every cached value lies in \<open>[0, N)\<close>, and no cache
  list holds a value twice.
\<close>

definition mc_inv :: "int \<Rightarrow> assignment \<times> cache \<Rightarrow> bool" where
  "mc_inv N s \<longleftrightarrow>
     map fst (fst s) = range_py N
   \<and> (\<forall>v\<in>set (map snd (fst s)). 0 \<le> v \<and> v < N)
   \<and> (\<forall>k. distinct (cache_get (snd s) k) \<and> (\<forall>v\<in>set (cache_get (snd s) k). 0 \<le> v \<and> v < N))"

section \<open>Properties of the N-Queens solvers\<close>

lemma mrv_loop_mem: "mrv_loop u us \<in> set (u # us)"
  by (induction u us rule: mrv_loop.induct) auto

lemma mrv_loop_le_init: "length (snd (mrv_loop u us)) \<le> length (snd u)"
  by (induction u us rule: mrv_loop.induct) (auto split: if_splits)

lemma mrv_loop_min:
  "x \<in> set (u # us) \<Longrightarrow> length (snd (mrv_loop u us)) \<le> length (snd x)"
proof (induction u us rule: mrv_loop.induct)
  case (1 var val)
  then show ?case by simp
next
  case (2 var val k v rest)
  show ?case
  proof (cases "length v \<le> length val")
    case True
    have "length (snd (mrv_loop (k, v) rest)) \<le> length v"
      using mrv_loop_le_init[of "(k, v)" rest] by simp
    then show ?thesis using 2 True by auto
  next
    case False
    have "length (snd (mrv_loop (var, val) rest)) \<le> length val"
      using mrv_loop_le_init[of "(var, val)" rest] by simp
    then show ?thesis using 2 False by auto
  qed
qed

lemma mrv_loop_last_tie:
  "sorted_wrt (<) (map fst (u # us)) \<Longrightarrow> x \<in> set (u # us) \<Longrightarrow>
   length (snd x) = length (snd (mrv_loop u us)) \<Longrightarrow> fst x \<le> fst (mrv_loop u us)"
proof (induction u us rule: mrv_loop.induct)
  case (1 var val)
  then show ?case by simp
next
  case (2 var val k v rest)
  show ?case
  proof (cases "length v \<le> length val")
    case True
    have r: "mrv_loop (var, val) ((k, v) # rest) = mrv_loop (k, v) rest"
      using True by simp
    have srt: "sorted_wrt (<) (map fst ((k, v) # rest))"
      using "2.prems"(1) by simp
    show ?thesis
    proof (cases "x = (var, val)")
      case True
      have "mrv_loop (k, v) rest \<in> set ((k, v) # rest)" by (rule mrv_loop_mem)
      then have "var < fst (mrv_loop (k, v) rest)"
        using "2.prems"(1) by auto
      then show ?thesis using True r by simp
    next
      case False
      then have "x \<in> set ((k, v) # rest)" using "2.prems"(2) by auto
      then show ?thesis
        using "2.IH"(1)[OF True srt] "2.prems"(3) r by simp
    qed
  next
    case False
    have r: "mrv_loop (var, val) ((k, v) # rest) = mrv_loop (var, val) rest"
      using False by simp
    have srt: "sorted_wrt (<) (map fst ((var, val) # rest))"
      using "2.prems"(1) by auto
    show ?thesis
    proof (cases "x = (k, v)")
      case True
      have "length (snd (mrv_loop (var, val) rest)) \<le> length val"
        using mrv_loop_min[of "(var, val)" "(var, val)" rest] by simp
      then show ?thesis using True False "2.prems"(3) r by simp
    next
      case False
      then have "x \<in> set ((var, val) # rest)" using "2.prems"(2) by auto
      then show ?thesis
        using "2.IH"(2)[OF \<open>\<not> length v \<le> length val\<close> srt] "2.prems"(3) r by simp
    qed
  qed
qed

lemma range_py_sorted: "sorted_wrt (<) (range_py N)"
  by (simp add: range_py_def sorted_wrt_map)

lemma set_range_py: "set (range_py N) = {k. 0 \<le> k \<and> k < N}"
proof -
  have "k \<in> int ` {0..<nat N}" if "0 \<le> k" "k < N" for k
    using that by (intro image_eqI[where x="nat k"]) auto
  then show ?thesis by (auto simp: range_py_def)
qed

lemma unassigned_vars_fst:
  "map fst (unassigned_vars N a) = filter (\<lambda>var. var \<notin> set (dict_keys a)) (range_py N)"
  by (simp add: unassigned_vars_def comp_def)

lemma unassigned_vars_sorted: "sorted_wrt (<) (map fst (unassigned_vars N a))"
  unfolding unassigned_vars_fst by (rule sorted_wrt_filter[OF range_py_sorted])

lemma unassigned_vars_mem:
  "(var, vals) \<in> set (unassigned_vars N a) \<longleftrightarrow>
     0 \<le> var \<and> var < N \<and> var \<notin> set (dict_keys a) \<and> vals = remaining_legal_values N var a"
  by (auto simp: unassigned_vars_def set_range_py)

lemma n_conflicts_le: "n_conflicts var val a \<le> int (length a)"
proof -
  have "sum_list (map (\<lambda>(k, v). if is_conflict var k val v then 1 else 0) xs) \<le> int (length xs)"
    for xs :: assignment
    by (induction xs) (auto split: prod.splits)
  from this[of "filter (\<lambda>(k, v). k \<noteq> var) a"]
  have "n_conflicts var val a \<le> int (length (filter (\<lambda>(k, v). k \<noteq> var) a))"
    by (simp add: n_conflicts_def)
  also have "\<dots> \<le> int (length a)" by simp
  finally show ?thesis .
qed

lemma mcv_loop_char:
  "sorted_wrt (<) vals \<Longrightarrow>
   (if \<exists>v\<in>set vals. v \<notin> set tried \<and> n_conflicts var v a \<le> metric
    then mcv_loop var a tried vals metric value \<in> set vals
       \<and> mcv_loop var a tried vals metric value \<notin> set tried
       \<and> n_conflicts var (mcv_loop var a tried vals metric value) a \<le> metric
       \<and> (\<forall>v\<in>set vals. v \<notin> set tried \<longrightarrow>
            n_conflicts var (mcv_loop var a tried vals metric value) a \<le> n_conflicts var v a
          \<and> (n_conflicts var v a = n_conflicts var (mcv_loop var a tried vals metric value) a
               \<longrightarrow> v \<le> mcv_loop var a tried vals metric value))
    else mcv_loop var a tried vals metric value = value)"
proof (induction vals arbitrary: metric "value")
  case Nil
  then show ?case by simp
next
  case (Cons val vals)
  have srt: "sorted_wrt (<) vals" and lt: "\<forall>v\<in>set vals. val < v"
    using Cons.prems by auto
  show ?case
  proof (cases "val \<notin> set tried \<and> n_conflicts var val a \<le> metric")
    case True
    let ?num = "n_conflicts var val a"
    have r: "mcv_loop var a tried (val # vals) metric value = mcv_loop var a tried vals ?num val"
      using True by (simp add: Let_def)
    note IH = Cons.IH[OF srt, of ?num val]
    show ?thesis
    proof (cases "\<exists>v\<in>set vals. v \<notin> set tried \<and> n_conflicts var v a \<le> ?num")
      case ex: True
      with IH have
        A: "mcv_loop var a tried vals ?num val \<in> set vals"
           "mcv_loop var a tried vals ?num val \<notin> set tried"
           "n_conflicts var (mcv_loop var a tried vals ?num val) a \<le> ?num"
        and B: "\<forall>v\<in>set vals. v \<notin> set tried \<longrightarrow>
            n_conflicts var (mcv_loop var a tried vals ?num val) a \<le> n_conflicts var v a
          \<and> (n_conflicts var v a = n_conflicts var (mcv_loop var a tried vals ?num val) a
               \<longrightarrow> v \<le> mcv_loop var a tried vals ?num val)"
        by (simp_all del: mcv_loop.simps)
      have "val < mcv_loop var a tried vals ?num val" using A(1) lt by blast
      with A B True show ?thesis unfolding r by auto
    next
      case nex: False
      with IH have e: "mcv_loop var a tried vals ?num val = val" by simp
      from nex have "\<forall>v\<in>set vals. v \<notin> set tried \<longrightarrow> ?num < n_conflicts var v a"
        by auto
      with True show ?thesis unfolding r e by auto
    qed
  next
    case False
    have r: "mcv_loop var a tried (val # vals) metric value = mcv_loop var a tried vals metric value"
      using False by (auto simp: Let_def)
    note IH = Cons.IH[OF srt, of metric "value"]
    have exeq: "(\<exists>v\<in>set (val # vals). v \<notin> set tried \<and> n_conflicts var v a \<le> metric)
        = (\<exists>v\<in>set vals. v \<notin> set tried \<and> n_conflicts var v a \<le> metric)"
      using False by auto
    show ?thesis
    proof (cases "\<exists>v\<in>set vals. v \<notin> set tried \<and> n_conflicts var v a \<le> metric")
      case ex: True
      with IH have
        A: "mcv_loop var a tried vals metric value \<in> set vals"
           "mcv_loop var a tried vals metric value \<notin> set tried"
           "n_conflicts var (mcv_loop var a tried vals metric value) a \<le> metric"
        and B: "\<forall>v\<in>set vals. v \<notin> set tried \<longrightarrow>
            n_conflicts var (mcv_loop var a tried vals metric value) a \<le> n_conflicts var v a
          \<and> (n_conflicts var v a = n_conflicts var (mcv_loop var a tried vals metric value) a
               \<longrightarrow> v \<le> mcv_loop var a tried vals metric value)"
        by (simp_all del: mcv_loop.simps)
      have C: "val \<notin> set tried \<longrightarrow> metric < n_conflicts var val a" using False by auto
      show ?thesis unfolding r exeq using ex A B C by auto
    next
      case nex: False
      with IH have e: "mcv_loop var a tried vals metric value = value" by simp
      have ne: "(\<exists>v\<in>set (val # vals). v \<notin> set tried \<and> n_conflicts var v a \<le> metric) = False"
        using nex exeq by simp
      show ?thesis unfolding r e by (simp only: ne if_False)
    qed
  qed
qed

lemma min_conflicts_val_char:
  assumes "is_complete N a"
      and "0 \<le> v" and "v < N" and "v \<notin> set (values_tried_of N c var)"
  shows "\<exists>value. min_conflicts_val N c var a = (value, c(var \<mapsto> values_tried_of N c var))
           \<and> 0 \<le> value \<and> value < N \<and> value \<notin> set (values_tried_of N c var)
           \<and> n_conflicts var value a \<le> n_conflicts var v a
           \<and> (n_conflicts var v a = n_conflicts var value a \<longrightarrow> v \<le> value)"
proof -
  let ?tried = "values_tried_of N c var"
  let ?r = "mcv_loop var a ?tried (range_py N) N (- 1)"
  have vin: "v \<in> set (range_py N)" using assms(2,3) by (simp add: set_range_py)
  have "n_conflicts var v a \<le> N"
    using n_conflicts_le[of var v a] assms(1) by (simp add: is_complete_def)
  then have ex: "\<exists>v\<in>set (range_py N). v \<notin> set ?tried \<and> n_conflicts var v a \<le> N"
    using vin assms(4) by blast
  from mcv_loop_char[OF range_py_sorted, of N ?tried var a N "- 1"] ex
  have A: "?r \<in> set (range_py N)" "?r \<notin> set ?tried"
    and B: "\<forall>v\<in>set (range_py N). v \<notin> set ?tried \<longrightarrow>
            n_conflicts var ?r a \<le> n_conflicts var v a
          \<and> (n_conflicts var v a = n_conflicts var ?r a \<longrightarrow> v \<le> ?r)"
    by (simp_all del: mcv_loop.simps)
  have "min_conflicts_val N c var a = (?r, c(var \<mapsto> ?tried))"
    by (simp add: min_conflicts_val_def Let_def)
  moreover have "0 \<le> ?r \<and> ?r < N" using A(1) by (simp add: set_range_py)
  ultimately show ?thesis using A(2) B vin assms(4) by blast
qed

text \<open>
  Claim C7, as the code has it. For a complete assignment, \<^verbatim>\<open>min_conflicts_val\<close> looks at
  the values of \<open>[0, N)\<close> that are not in the variable's tried-values list (the list
  counts as empty when its length is \<open>N\<close>, and is stored back into the cache). If there
  is such a value, the result is one of them, it minimises \<^verbatim>\<open>n_conflicts\<close> among them,
  and no candidate with the same number of conflicts is larger: the comparison
  \<^verbatim>\<open>num <= metric\<close> lets the last value with the minimum win.
\<close>

theorem min_conflicts_val_last_minimum:
  assumes "is_complete N a"
      and "0 \<le> v" and "v < N" and "v \<notin> set (values_tried_of N c var)"
  shows "\<exists>value. min_conflicts_val N c var a = (value, c(var \<mapsto> values_tried_of N c var))
           \<and> 0 \<le> value \<and> value < N \<and> value \<notin> set (values_tried_of N c var)
           \<and> n_conflicts var value a \<le> n_conflicts var v a
           \<and> (n_conflicts var v a = n_conflicts var value a \<longrightarrow> v \<le> value)"
  using assms by (rule min_conflicts_val_char)

theorem min_conflicts_val_last_minimum_witness:
  "is_complete 4 [(0, 0), (1, 0), (2, 0), (3, 0)] \<and> (0::int) \<le> 1 \<and> (1::int) < 4
   \<and> 1 \<notin> set (values_tried_of 4 [0 \<mapsto> [0]] 0)
   \<and> (\<exists>value. min_conflicts_val 4 [0 \<mapsto> [0]] 0 [(0, 0), (1, 0), (2, 0), (3, 0)]
                   = (value, [0 \<mapsto> [0]](0 \<mapsto> values_tried_of 4 [0 \<mapsto> [0]] 0))
           \<and> 0 \<le> value \<and> value < 4 \<and> value \<notin> set (values_tried_of 4 [0 \<mapsto> [0]] 0)
           \<and> n_conflicts 0 value [(0, 0), (1, 0), (2, 0), (3, 0)]
               \<le> n_conflicts 0 1 [(0, 0), (1, 0), (2, 0), (3, 0)]
           \<and> (n_conflicts 0 1 [(0, 0), (1, 0), (2, 0), (3, 0)]
                = n_conflicts 0 value [(0, 0), (1, 0), (2, 0), (3, 0)] \<longrightarrow> 1 \<le> value))"
proof -
  have h1: "is_complete 4 [(0, 0), (1, 0), (2, 0), (3, 0)]" by (simp add: is_complete_def)
  have h4: "1 \<notin> set (values_tried_of 4 [0 \<mapsto> [0]] 0)"
    by (simp add: values_tried_of_def cache_get_def)
  show ?thesis
    using h1 h4 min_conflicts_val_last_minimum[OF h1 _ _ h4] by simp
qed

text \<open>
  The tie-break the claim states (the smallest tying value) fails: on the board with
  every queen in column 0 and row 0's cache holding 0, the values 1, 2 and 3 all have one
  conflict, and the code returns 3.
\<close>

theorem min_conflicts_val_tie_counterexample:
  "fst (min_conflicts_val 4 [0 \<mapsto> [0]] 0 [(0, 0), (1, 0), (2, 0), (3, 0)]) = 3
   \<and> 1 \<notin> set (values_tried_of 4 [0 \<mapsto> [0]] 0)
   \<and> n_conflicts 0 1 [(0, 0), (1, 0), (2, 0), (3, 0)]
       = n_conflicts 0 3 [(0, 0), (1, 0), (2, 0), (3, 0)]
   \<and> (1::int) < 3"
  by (simp add: min_conflicts_val_def values_tried_of_def cache_get_def range_py_def
      n_conflicts_def is_conflict_def eval_nat_numeral)

text \<open>
  Claim C5, as the code has it. If some variable of \<open>[0, N)\<close> is unassigned,
  \<^verbatim>\<open>select_unassigned_variable\<close> returns an unassigned variable with its remaining legal
  values, no unassigned variable has fewer of them, and every unassigned variable with
  as many has an id that is not larger: \<^verbatim>\<open>len(v) <= len(val)\<close> lets the last variable with
  the minimum win, so ties go to the highest variable id.
\<close>

theorem select_unassigned_variable_mrv:
  assumes "0 \<le> k" and "k < N" and "k \<notin> set (dict_keys a)"
  shows "\<exists>var vals. select_unassigned_variable N a = Inr (var, vals)
           \<and> 0 \<le> var \<and> var < N \<and> var \<notin> set (dict_keys a)
           \<and> vals = remaining_legal_values N var a
           \<and> length vals \<le> length (remaining_legal_values N k a)
           \<and> (length (remaining_legal_values N k a) = length vals \<longrightarrow> k \<le> var)"
proof -
  let ?x = "(k, remaining_legal_values N k a)"
  have kin: "?x \<in> set (unassigned_vars N a)"
    using assms by (simp add: unassigned_vars_mem)
  then obtain u us where us: "unassigned_vars N a = u # us"
    by (cases "unassigned_vars N a") auto
  obtain var vals where r: "mrv_loop u us = (var, vals)" by (cases "mrv_loop u us")
  have sel: "select_unassigned_variable N a = Inr (var, vals)"
    by (simp add: select_unassigned_variable_def us r)
  have "(var, vals) \<in> set (unassigned_vars N a)"
    using mrv_loop_mem[of u us] us r by simp
  then have m: "0 \<le> var \<and> var < N \<and> var \<notin> set (dict_keys a) \<and> vals = remaining_legal_values N var a"
    using unassigned_vars_mem[of var vals N a] by blast
  have mn: "length vals \<le> length (remaining_legal_values N k a)"
    using mrv_loop_min[of ?x u us] kin us r by simp
  have srt: "sorted_wrt (<) (map fst (u # us))"
    using unassigned_vars_sorted[of N a] us by simp
  have tie: "length (remaining_legal_values N k a) = length vals \<longrightarrow> k \<le> var"
    using mrv_loop_last_tie[OF srt, of ?x] kin us r by simp
  show ?thesis using sel m mn tie by blast
qed

theorem select_unassigned_variable_mrv_witness:
  "(0::int) \<le> 0 \<and> (0::int) < 4 \<and> 0 \<notin> set (dict_keys [(3, 1)])
   \<and> (\<exists>var vals. select_unassigned_variable 4 [(3, 1)] = Inr (var, vals)
           \<and> 0 \<le> var \<and> var < 4 \<and> var \<notin> set (dict_keys [(3, 1)])
           \<and> vals = remaining_legal_values 4 var [(3, 1)]
           \<and> length vals \<le> length (remaining_legal_values 4 0 [(3, 1)])
           \<and> (length (remaining_legal_values 4 0 [(3, 1)]) = length vals \<longrightarrow> 0 \<le> var))"
proof -
  have h: "0 \<notin> set (dict_keys [(3, 1)])" by (simp add: dict_keys_def)
  show ?thesis
    using h select_unassigned_variable_mrv[of 0 4 "[(3, 1)]"] by simp
qed

text \<open>
  The tie-break the claim states (the lowest variable id) fails: on the empty assignment
  of the 4-queens board all four variables have four legal values, and the code returns
  variable 3.
\<close>

theorem select_unassigned_variable_tie_counterexample:
  "select_unassigned_variable 4 [] = Inr (3, [0, 1, 2, 3])
   \<and> 0 \<notin> set (dict_keys [])
   \<and> length (remaining_legal_values 4 0 []) = length (remaining_legal_values 4 3 [])
   \<and> (0::int) < 3"
  by (simp add: select_unassigned_variable_def unassigned_vars_def dict_keys_def
      remaining_legal_values_def range_py_def eval_nat_numeral)

text \<open>
  Claim C6 at an input where both neighbors are assigned: rows 0 and 2 of the 6-queens
  board hold queens and row 1 is being ordered. The \<^verbatim>\<open>elif\<close> keeps row 2 in the neighbor
  list, its ruled-out counts are added, and the order differs from the one obtained when
  every assigned neighbor is left out.
\<close>

theorem order_domain_values_both_neighbors_assigned:
  "1 - 1 \<in> set (dict_keys [(0, 0), (2, 1)]) \<and> 1 + 1 \<in> set (dict_keys [(0, 0), (2, 1)])
   \<and> lcv_neighbors 1 [(0, 0), (2, 1)] = [2]
   \<and> order_domain_values 6 1 (remaining_legal_values 6 1 [(0, 0), (2, 1)]) [(0, 0), (2, 1)] = [3, 5, 4]
   \<and> order_domain_values_spec 6 1 (remaining_legal_values 6 1 [(0, 0), (2, 1)]) [(0, 0), (2, 1)] = [3, 4, 5]"
  by code_simp

lemma length_range_py: "length (range_py N) = nat N"
  by (simp add: range_py_def)

lemma distinct_range_py: "distinct (range_py N)"
  by (simp add: range_py_def distinct_map inj_on_def)

lemma init_cache_fold:
  "distinct (map fst a) \<Longrightarrow>
   fold (\<lambda>(k, v) c. c(k \<mapsto> cache_get c k @ [v])) a c0 k =
     (case map_of a k of None \<Rightarrow> c0 k | Some v \<Rightarrow> Some (cache_get c0 k @ [v]))"
proof (induction a arbitrary: c0)
  case Nil
  then show ?case by simp
next
  case (Cons p a)
  obtain k0 v0 where p: "p = (k0, v0)" by (cases p)
  have d: "distinct (map fst a)" and nk: "k0 \<notin> fst ` set a"
    using Cons.prems p by auto
  have m: "map_of a k0 = None" using nk by (simp add: map_of_eq_None_iff)
  show ?case
    using Cons.IH[OF d, of "c0(k0 \<mapsto> cache_get c0 k0 @ [v0])"] m
    by (auto simp: p cache_get_def split: option.splits)
qed

lemma cache_get_init_cache:
  "distinct (map fst a) \<Longrightarrow>
   cache_get (init_cache a) k = (case map_of a k of None \<Rightarrow> [] | Some v \<Rightarrow> [v])"
proof -
  assume "distinct (map fst a)"
  then have "init_cache a k =
      (case map_of a k of None \<Rightarrow> Map.empty k | Some v \<Rightarrow> Some (cache_get Map.empty k @ [v]))"
    unfolding init_cache_def by (rule init_cache_fold)
  then show ?thesis by (simp add: cache_get_def split: option.splits)
qed

lemma init_assignment_fst: "map fst (init_assignment N draw) = range_py N"
  by (simp add: init_assignment_def comp_def)

lemma mc_inv_init:
  assumes "\<forall>i. 0 \<le> i \<and> i < N \<longrightarrow> 0 \<le> draw i \<and> draw i < N"
  shows "mc_inv N (init_state N draw)"
proof -
  let ?a = "init_assignment N draw"
  have d: "distinct (map fst ?a)"
    by (simp add: init_assignment_fst distinct_range_py)
  have vals: "\<forall>v\<in>set (map snd ?a). 0 \<le> v \<and> v < N"
    using assms by (auto simp: init_assignment_def set_range_py)
  have "distinct (cache_get (init_cache ?a) k)
        \<and> (\<forall>v\<in>set (cache_get (init_cache ?a) k). 0 \<le> v \<and> v < N)" for k
  proof (cases "map_of ?a k")
    case None
    then show ?thesis by (simp add: cache_get_init_cache[OF d])
  next
    case (Some v)
    then have "(k, v) \<in> set ?a" by (rule map_of_SomeD)
    then have "v \<in> set (map snd ?a)" by force
    then have "0 \<le> v \<and> v < N" using vals by blast
    then show ?thesis using Some by (simp add: cache_get_init_cache[OF d])
  qed
  then show ?thesis
    using vals by (simp add: mc_inv_def init_state_def init_assignment_fst)
qed

lemma mc_inv_complete: "0 \<le> N \<Longrightarrow> mc_inv N s \<Longrightarrow> is_complete N (fst s)"
proof -
  assume N: "0 \<le> N" and inv: "mc_inv N s"
  have "length (map fst (fst s)) = nat N"
    using inv by (simp add: mc_inv_def length_range_py del: length_map)
  then show ?thesis using N by (simp add: is_complete_def)
qed

lemma conflicted_vars_subset: "set (conflicted_vars a) \<subseteq> set (map fst a)"
  by (auto simp: conflicted_vars_def)

lemma candidate_exists:
  assumes "0 < N" and "distinct l" and "\<forall>v\<in>set l. 0 \<le> v \<and> v < N"
      and "int (length l) \<noteq> N"
  shows "\<exists>v. 0 \<le> v \<and> v < N \<and> v \<notin> set l"
proof (rule ccontr)
  assume "\<not> ?thesis"
  then have "{0..<N} \<subseteq> set l" by auto
  moreover have "set l \<subseteq> {0..<N}" using assms(3) by auto
  ultimately have "set l = {0..<N}" by blast
  then have "card (set l) = nat N" by simp
  then have "length l = nat N" using assms(2) by (simp add: distinct_card)
  then show False using assms(1,4) by simp
qed

lemma tried_candidate:
  assumes "0 < N" and "distinct (cache_get c var)"
      and "\<forall>v\<in>set (cache_get c var). 0 \<le> v \<and> v < N"
  shows "\<exists>v. 0 \<le> v \<and> v < N \<and> v \<notin> set (values_tried_of N c var)"
proof (cases "int (length (cache_get c var)) = N")
  case True
  then have "values_tried_of N c var = []" by (simp add: values_tried_of_def)
  then show ?thesis using assms(1) by (intro exI[where x=0]) simp
next
  case False
  then have "values_tried_of N c var = cache_get c var" by (simp add: values_tried_of_def)
  then show ?thesis using candidate_exists[OF assms(1,2,3) False] by simp
qed

lemma values_tried_of_props:
  assumes "distinct (cache_get c var)" and "\<forall>v\<in>set (cache_get c var). 0 \<le> v \<and> v < N"
  shows "distinct (values_tried_of N c var) \<and> (\<forall>v\<in>set (values_tried_of N c var). 0 \<le> v \<and> v < N)"
  using assms by (simp add: values_tried_of_def Let_def)

lemma dict_set_fst: "k \<in> set (map fst a) \<Longrightarrow> map fst (dict_set a k v) = map fst a"
  by (induction a k v rule: dict_set.induct) auto

lemma dict_set_snd: "set (map snd (dict_set a k v)) \<subseteq> insert v (set (map snd a))"
  by (induction a k v rule: dict_set.induct) auto

lemma mc_repair_inv:
  assumes N: "0 \<le> N" and inv: "mc_inv N s" and ns: "\<not> is_solution N (fst s)"
  shows "conflicted_vars (fst s) \<noteq> []
       \<and> (\<exists>var val c1 s'. random_choice (conflicted_vars (fst s)) r = Inr var
             \<and> var \<in> set (conflicted_vars (fst s))
             \<and> min_conflicts_val N (snd s) var (fst s) = (val, c1)
             \<and> 0 \<le> val \<and> val < N
             \<and> mc_repair N r s = Inr s' \<and> mc_inv N s')"
proof -
  obtain a c where s: "s = (a, c)" by (cases s)
  have comp: "is_complete N a" using mc_inv_complete[OF N inv] s by simp
  have ne: "conflicted_vars a \<noteq> []" using ns comp s by (simp add: is_solution_def)
  let ?cv = "conflicted_vars a"
  let ?var = "?cv ! (r mod length ?cv)"
  have rc: "random_choice ?cv r = Inr ?var" using ne by (simp add: random_choice_def)
  have varin: "?var \<in> set ?cv" using ne by simp
  then have vk: "?var \<in> set (map fst a)" using conflicted_vars_subset[of a] by blast
  then have "?var \<in> set (range_py N)" using inv s by (simp add: mc_inv_def del: set_map)
  then have vr: "0 \<le> ?var \<and> ?var < N" by (simp add: set_range_py)
  then have Npos: "0 < N" by simp
  have cprops: "distinct (cache_get c ?var)" "\<forall>v\<in>set (cache_get c ?var). 0 \<le> v \<and> v < N"
    using inv s by (simp_all add: mc_inv_def)
  obtain v where v: "0 \<le> v" "v < N" "v \<notin> set (values_tried_of N c ?var)"
    using tried_candidate[OF Npos cprops] by blast
  let ?tried = "values_tried_of N c ?var"
  obtain val where mv: "min_conflicts_val N c ?var a = (val, c(?var \<mapsto> ?tried))"
    and valr: "0 \<le> val" "val < N" and valn: "val \<notin> set ?tried"
    using min_conflicts_val_char[OF comp v] by blast
  let ?c1 = "c(?var \<mapsto> ?tried)"
  let ?s' = "(dict_set a ?var val, ?c1(?var \<mapsto> cache_get ?c1 ?var @ [val]))"
  have rep: "mc_repair N r s = Inr ?s'"
    by (simp add: mc_repair_def s rc mv)
  have tp: "distinct ?tried" "\<forall>v\<in>set ?tried. 0 \<le> v \<and> v < N"
    using values_tried_of_props[OF cprops] by simp_all
  have cg: "cache_get ?c1 ?var = ?tried" by (simp add: cache_get_def)
  have i1: "map fst (dict_set a ?var val) = range_py N"
    using dict_set_fst[OF vk] inv s by (simp add: mc_inv_def)
  have i2: "\<forall>v\<in>set (map snd (dict_set a ?var val)). 0 \<le> v \<and> v < N"
  proof
    fix v assume "v \<in> set (map snd (dict_set a ?var val))"
    then have "v = val \<or> v \<in> set (map snd a)" using dict_set_snd[of a ?var val] by blast
    moreover have "\<forall>v\<in>set (map snd a). 0 \<le> v \<and> v < N"
      using inv s by (simp add: mc_inv_def del: set_map)
    ultimately show "0 \<le> v \<and> v < N" using valr by blast
  qed
  have i3: "distinct (cache_get (snd ?s') k) \<and> (\<forall>v\<in>set (cache_get (snd ?s') k). 0 \<le> v \<and> v < N)" for k
  proof (cases "k = ?var")
    case True
    then have "cache_get (snd ?s') k = ?tried @ [val]" by (simp add: cache_get_def)
    then show ?thesis using tp valn valr by auto
  next
    case False
    then have "cache_get (snd ?s') k = cache_get c k" by (simp add: cache_get_def)
    then show ?thesis using inv s by (simp add: mc_inv_def)
  qed
  have inv': "mc_inv N ?s'"
    unfolding mc_inv_def using i1 i2 i3 by (simp del: set_map)
  show ?thesis
    using ne rc varin mv valr rep inv' unfolding s by (simp del: set_map)
qed

lemma mc_state_at_inv:
  assumes N: "0 \<le> N" and inv: "mc_inv N s0"
  shows "mc_state_at N rs n s0 = Some s \<Longrightarrow> mc_inv N s"
proof (induction n arbitrary: s)
  case 0
  then show ?case using inv by simp
next
  case (Suc n)
  from Suc.prems obtain s1 where s1: "mc_state_at N rs n s0 = Some s1"
    and ns: "\<not> is_solution N (fst s1)" and rep: "mc_repair N (rs n) s1 = Inr s"
    by (auto split: option.splits if_splits sum.splits)
  have "mc_inv N s1" using Suc.IH[OF s1] .
  from mc_repair_inv[OF N this ns, of "rs n"] rep show ?case by auto
qed

lemma min_conflicts_loop_state_at:
  "mc_state_at N rs n s0 = Some s \<Longrightarrow> n \<le> k \<Longrightarrow>
   min_conflicts_loop N rs 0 k s0 = min_conflicts_loop N rs n (k - n) s"
proof (induction n arbitrary: s)
  case 0
  then show ?case by simp
next
  case (Suc n)
  from Suc.prems(1) obtain s1 where s1: "mc_state_at N rs n s0 = Some s1"
    and ns: "\<not> is_solution N (fst s1)" and r: "mc_repair N (rs n) s1 = Inr s"
    by (auto split: option.splits if_splits sum.splits)
  have k: "k - n = Suc (k - Suc n)" using Suc.prems(2) by simp
  have "min_conflicts_loop N rs 0 k s0 = min_conflicts_loop N rs n (k - n) s1"
    using Suc.IH[OF s1] Suc.prems(2) by simp
  also have "\<dots> = min_conflicts_loop N rs (Suc n) (k - Suc n) s"
    unfolding k using ns r by simp
  finally show ?case .
qed

lemma min_conflicts_loop_no_error:
  assumes N: "0 \<le> N"
  shows "mc_inv N s \<Longrightarrow> min_conflicts_loop N rs i k s \<noteq> Inl e"
proof (induction k arbitrary: i s)
  case 0
  then show ?case by simp
next
  case (Suc k)
  show ?case
  proof (cases "is_solution N (fst s)")
    case True
    then show ?thesis by simp
  next
    case False
    from mc_repair_inv[OF N Suc.prems False, of "rs i"]
    obtain s' where "mc_repair N (rs i) s = Inr s'" "mc_inv N s'" by blast
    then show ?thesis using False Suc.IH[of s' "Suc i"] by simp
  qed
qed

text \<open>
  Claim C10. For a board size \<open>N \<ge> 0\<close> and initial columns drawn from \<open>[0, N)\<close>, whatever
  the random choices \<open>rs\<close>: the state at the start of every iteration the loop reaches has
  an assignment with exactly the keys \<open>0, \<dots>, N - 1\<close> and values in \<open>[0, N)\<close>; if it is
  not a solution, \<^verbatim>\<open>conflicted_vars\<close> is not empty, the random choice returns a variable and
  \<^verbatim>\<open>min_conflicts_val\<close> returns a value of \<open>[0, N)\<close> for it, so never \<open>- 1\<close>; and the
  solver never raises.
\<close>

theorem min_conflicts_solver_assignment_complete:
  assumes "0 \<le> N"
      and "\<forall>i. 0 \<le> i \<and> i < N \<longrightarrow> 0 \<le> draw i \<and> draw i < N"
      and "mc_state_at N rs n (init_state N draw) = Some (current, c)"
  shows "map fst current = range_py N
       \<and> (\<forall>v\<in>set (map snd current). 0 \<le> v \<and> v < N)
       \<and> is_complete N current
       \<and> (\<not> is_solution N current \<longrightarrow>
            conflicted_vars current \<noteq> []
          \<and> (\<exists>var val c1. random_choice (conflicted_vars current) (rs n) = Inr var
                \<and> min_conflicts_val N c var current = (val, c1)
                \<and> 0 \<le> val \<and> val < N))
       \<and> min_conflicts_solver N draw rs max_steps \<noteq> Inl e"
proof -
  have inv0: "mc_inv N (init_state N draw)" using mc_inv_init[OF assms(2)] .
  have inv: "mc_inv N (current, c)" using mc_state_at_inv[OF assms(1) inv0 assms(3)] .
  have comp: "is_complete N current" using mc_inv_complete[OF assms(1) inv] by simp
  have step: "\<not> is_solution N current \<longrightarrow>
            conflicted_vars current \<noteq> []
          \<and> (\<exists>var val c1. random_choice (conflicted_vars current) (rs n) = Inr var
                \<and> min_conflicts_val N c var current = (val, c1)
                \<and> 0 \<le> val \<and> val < N)"
  proof
    assume ns: "\<not> is_solution N current"
    from mc_repair_inv[OF assms(1) inv, of "rs n"] ns
    show "conflicted_vars current \<noteq> []
          \<and> (\<exists>var val c1. random_choice (conflicted_vars current) (rs n) = Inr var
                \<and> min_conflicts_val N c var current = (val, c1)
                \<and> 0 \<le> val \<and> val < N)"
      by (simp del: set_map) blast
  qed
  have ne: "min_conflicts_solver N draw rs max_steps \<noteq> Inl e"
    unfolding min_conflicts_solver_def by (rule min_conflicts_loop_no_error[OF assms(1) inv0])
  show ?thesis using inv comp step ne by (simp add: mc_inv_def del: set_map)
qed

theorem min_conflicts_solver_assignment_complete_witness:
  "(0::int) \<le> 4
   \<and> (\<exists>current c.
         mc_state_at 4 (\<lambda>i. i) 3 (init_state 4 (\<lambda>i. if i = 2 then 0 else 1)) = Some (current, c)
       \<and> map fst current = range_py 4
       \<and> (\<forall>v\<in>set (map snd current). 0 \<le> v \<and> v < 4)
       \<and> is_complete 4 current
       \<and> (\<not> is_solution 4 current \<longrightarrow>
            conflicted_vars current \<noteq> []
          \<and> (\<exists>var val c1. random_choice (conflicted_vars current) 3 = Inr var
                \<and> min_conflicts_val 4 c var current = (val, c1)
                \<and> 0 \<le> val \<and> val < 4))
       \<and> min_conflicts_solver 4 (\<lambda>i. if i = 2 then 0 else 1) (\<lambda>i. i) 50 \<noteq> Inl ValueError)"
proof -
  have h1: "(0::int) \<le> 4" by simp
  have h2: "\<forall>i. 0 \<le> i \<and> i < 4 \<longrightarrow> 0 \<le> (if i = 2 then 0 else 1::int) \<and> (if i = 2 then 0 else 1::int) < 4"
    by simp
  have "mc_state_at 4 (\<lambda>i. i) 3 (init_state 4 (\<lambda>i. if i = 2 then 0 else 1)) \<noteq> None"
    by code_simp
  then obtain current c where
    st: "mc_state_at 4 (\<lambda>i. i) 3 (init_state 4 (\<lambda>i. if i = 2 then 0 else 1)) = Some (current, c)"
    by fastforce
  from min_conflicts_solver_assignment_complete[OF h1 h2 st, of 50 ValueError]
  show ?thesis using h1 st by blast
qed

section \<open>Properties of the searches\<close>

lemma solution_walk_append: "solution_walk n res = res @ solution_walk n []"
proof (induction n arbitrary: res)
  case (Node s par act pc d v)
  show ?case
  proof (cases par)
    case None
    then show ?thesis by simp
  next
    case (Some q)
    have IH: "solution_walk q r = r @ solution_walk q []" for r
      using Node.IH[of q r] Some by simp
    have "solution_walk (Node s par act pc d v) res
          = (res @ [Node s par act pc d v]) @ solution_walk q []"
      using IH[of "res @ [Node s par act pc d v]"] Some by simp
    also have "\<dots> = res @ solution_walk q [Node s par act pc d v]"
      using IH[of "[Node s par act pc d v]"] by simp
    finally show ?thesis using Some by simp
  qed
qed

lemma solution_root: "parent n = None \<Longrightarrow> solution n = [n]"
  by (cases n) (simp add: solution_def)

lemma solution_child: "parent n = Some q \<Longrightarrow> solution n = solution q @ [n]"
proof -
  assume par: "parent n = Some q"
  obtain s act pc d v where n: "n = Node s (Some q) act pc d v"
    using par by (cases n) auto
  have "solution_walk n [] = solution_walk q [n]" by (simp add: n)
  also have "\<dots> = [n] @ solution_walk q []" by (rule solution_walk_append)
  finally show ?thesis by (simp add: solution_def)
qed

lemma child_node_sel [simp]:
  "state (child_node n p a) = result p (state n) a"
  "parent (child_node n p a) = Some n"
  "action (child_node n p a) = Some a"
  "path_cost (child_node n p a) = path_cost n + 1"
  "depth (child_node n p a) = depth n + 1"
  "f (child_node n p a) = path_cost n + 1"
  by (simp_all add: child_node_def Node_init_def Let_def)

lemma Node_init_root_sel [simp]:
  "state (Node_init s None act pc) = s"
  "parent (Node_init s None act pc) = None"
  "action (Node_init s None act pc) = act"
  "path_cost (Node_init s None act pc) = pc"
  "depth (Node_init s None act pc) = 0"
  "f (Node_init s None act pc) = pc"
  by (simp_all add: Node_init_def)

lemma solution_not_Nil [simp]: "solution n \<noteq> []"
  by (cases "parent n") (simp_all add: solution_root solution_child)

lemma solution_child_node [simp]: "solution (child_node n p a) = solution n @ [child_node n p a]"
  by (rule solution_child) simp

lemma path_actions_snoc:
  "ns \<noteq> [] \<Longrightarrow> action m = Some a \<Longrightarrow> path_actions (ns @ [m]) = path_actions ns @ [a]"
  by (cases ns) (simp_all add: path_actions_def List.map_filter_def)

lemma reachable_solution:
  assumes "reachable_node p root n" and "parent root = None"
  shows "hd (solution n) = root \<and> last (solution n) = n
       \<and> (\<forall>i. Suc i < length (solution n) \<longrightarrow> parent (solution n ! Suc i) = Some (solution n ! i))
       \<and> length (path_actions (solution n)) = length (solution n) - 1
       \<and> length (solution n) = Suc (depth n - depth root)
       \<and> depth root \<le> depth n
       \<and> foldl (result p) (state root) (path_actions (solution n)) = state n"
  using assms
proof (induction rule: reachable_node.induct)
  case reach_root
  then show ?case by (simp add: solution_root path_actions_def List.map_filter_def)
next
  case (reach_child n a)
  let ?c = "child_node n p a"
  note IH = reach_child.IH[OF reach_child.prems]
  have s: "solution ?c = solution n @ [?c]" by simp
  have pa: "path_actions (solution n @ [?c]) = path_actions (solution n) @ [a]"
    by (rule path_actions_snoc) simp_all
  have hd: "hd (solution ?c) = root" using IH by (simp add: s)
  have lst: "last (solution ?c) = ?c" by (simp add: s)
  have len: "length (solution ?c) = Suc (depth ?c - depth root)" "depth root \<le> depth ?c"
    using IH by (auto simp: s)
  have lpa: "length (path_actions (solution ?c)) = length (solution ?c) - 1"
    using IH by (simp add: pa s)
  have fold: "foldl (result p) (state root) (path_actions (solution ?c)) = state ?c"
    using IH by (simp add: pa)
  have link: "parent (solution ?c ! Suc i) = Some (solution ?c ! i)"
    if "Suc i < length (solution ?c)" for i
  proof (cases "Suc i < length (solution n)")
    case True
    then show ?thesis using IH by (simp add: s nth_append)
  next
    case False
    then have e: "Suc i = length (solution n)" using that by (simp add: s)
    then have "solution ?c ! Suc i = ?c" by (simp add: s)
    moreover have "solution ?c ! i = last (solution n)"
      by (simp add: s nth_append last_conv_nth e[symmetric])
    ultimately show ?thesis using IH by simp
  qed
  show ?case using hd lst len lpa fold link by blast
qed

text \<open>
  Claim C8. For every node built from the root \<^verbatim>\<open>Node(start)\<close> by repeated \<^verbatim>\<open>child_node\<close>
  applications, \<^verbatim>\<open>solution(node)\<close> starts with the root, whose action is \<^verbatim>\<open>None\<close>, ends with
  the node, each node's parent is the node before it, every node after the root carries
  an action, and applying these actions in order with \<^verbatim>\<open>problem.result\<close>, starting from the
  start state, gives exactly the node's state.
\<close>

theorem solution_round_trip:
  assumes "reachable_node p (Node_init (start p) None None 0) n"
  shows "hd (solution n) = Node_init (start p) None None 0
       \<and> action (hd (solution n)) = None
       \<and> last (solution n) = n
       \<and> (\<forall>i. Suc i < length (solution n) \<longrightarrow> parent (solution n ! Suc i) = Some (solution n ! i))
       \<and> length (path_actions (solution n)) = length (solution n) - 1
       \<and> foldl (result p) (start p) (path_actions (solution n)) = state n"
  using reachable_solution[OF assms] by simp

lemma tuple_index_Inr:
  "x \<in> set xs \<Longrightarrow> \<exists>i. tuple_index xs x = Inr i \<and> i < length xs \<and> xs ! i = x"
  by (induction xs) auto

lemma Problem_actions_eq:
  assumes "tuple_index s 0 = Inr ix"
  shows "Problem_actions s = Inr (filter (\<lambda>a.
           (a = ''left'' \<longrightarrow> ix mod 3 \<noteq> 0) \<and> (a = ''up'' \<longrightarrow> \<not> ix < 3)
         \<and> (a = ''right'' \<longrightarrow> ix mod 3 \<noteq> 2) \<and> (a = ''down'' \<longrightarrow> \<not> ix > 5))
           [''left'', ''right'', ''up'', ''down''])"
  by (cases "ix mod 3 = 0"; cases "ix < 3"; cases "ix mod 3 = 2"; cases "ix > 5")
     (simp_all add: Problem_actions_def assms)

lemma disj_select4:
  "A1 \<or> A2 \<or> A3 \<or> A4 \<Longrightarrow> (A1 \<longrightarrow> c1) \<and> (A3 \<longrightarrow> c3) \<and> (A2 \<longrightarrow> c2) \<and> (A4 \<longrightarrow> c4)
   \<Longrightarrow> (A1 \<and> c1) \<or> (A2 \<and> c2) \<or> (A3 \<and> c3) \<or> (A4 \<and> c4)"
  by blast

lemma Problem_actions_mem:
  assumes "tuple_index s 0 = Inr ix" and "Problem_actions s = Inr acts" and "a \<in> set acts"
  shows "(a = ''left'' \<and> ix mod 3 \<noteq> 0) \<or> (a = ''right'' \<and> ix mod 3 \<noteq> 2)
       \<or> (a = ''up'' \<and> \<not> ix < 3) \<or> (a = ''down'' \<and> \<not> ix > 5)"
proof -
  define keep where "keep = (\<lambda>a. (a = ''left'' \<longrightarrow> ix mod 3 \<noteq> 0) \<and> (a = ''up'' \<longrightarrow> \<not> ix < 3)
         \<and> (a = ''right'' \<longrightarrow> ix mod 3 \<noteq> 2) \<and> (a = ''down'' \<longrightarrow> \<not> ix > 5))"
  define L where "L = [''left'', ''right'', ''up'', ''down'']"
  have "Inr acts = (Inr (filter keep L) :: py_error + string list)"
    unfolding keep_def L_def
    using Problem_actions_eq[OF assms(1)] assms(2) by (simp only:)
  then have "acts = filter keep L" by (simp only: sum.inject)
  then have "a \<in> set (filter keep L)" using assms(3) by (simp only:)
  then have k: "keep a" and m: "a \<in> set L"
    by (simp_all only: set_filter mem_Collect_eq)
  from m have d: "a = ''left'' \<or> a = ''right'' \<or> a = ''up'' \<or> a = ''down''"
    unfolding L_def by (simp only: list.set insert_iff empty_iff simp_thms)
  have k': "(a = ''left'' \<longrightarrow> ix mod 3 \<noteq> 0) \<and> (a = ''up'' \<longrightarrow> \<not> ix < 3)
         \<and> (a = ''right'' \<longrightarrow> ix mod 3 \<noteq> 2) \<and> (a = ''down'' \<longrightarrow> \<not> ix > 5)"
    using k unfolding keep_def .
  show ?thesis by (rule disj_select4[OF d k'])
qed

lemma valid_state_swap:
  assumes "valid_state s" and "i < 9" and "j < 9"
  shows "valid_state (s[i := s ! j, j := s ! i])"
proof -
  have len: "length s = 9" and st: "set s = {0..8}"
    using assms(1) unfolding valid_state_def by blast+
  have "mset (s[i := s ! j, j := s ! i]) = mset s"
    by (rule mset_swap) (simp_all only: len assms)
  then have "set (s[i := s ! j, j := s ! i]) = set s" by (rule mset_eq_setD)
  then show ?thesis unfolding valid_state_def using len st by (simp only: length_list_update) 
qed

lemma Problem_result_swap:
  assumes "tuple_index s 0 = Inr ix" and "length s = 9"
      and "change a = Some d" and "0 \<le> int ix + d" and "int ix + d < 9"
  shows "Problem_result s a = Inr (s[ix := s ! nat (int ix + d), nat (int ix + d) := s ! ix])"
  using assms by (simp add: Problem_result_def list_pos_def Let_def)

lemma Problem_result_step:
  assumes v: "valid_state s" and ix: "tuple_index s 0 = Inr ix" "ix < 9"
      and c: "change a = Some d" and b: "0 \<le> int ix + d" "int ix + d < 9"
  shows "\<exists>d s'. change a = Some d \<and> 0 \<le> int ix + d \<and> int ix + d < 9
                  \<and> Problem_result s a = Inr s' \<and> valid_state s'"
proof -
  have len: "length s = 9" using v unfolding valid_state_def by blast
  have j: "nat (int ix + d) < 9" using b by simp
  have "valid_state (s[ix := s ! nat (int ix + d), nat (int ix + d) := s ! ix])"
    using valid_state_swap[OF v ix(2) j] .
  moreover note Problem_result_swap[OF ix(1) len c b]
  ultimately show ?thesis using c b by (intro exI[of _ d] exI conjI)
qed

text \<open>
  Claim C9. For a valid 8-puzzle state (nine entries, the numbers 0 to 8) \<^verbatim>\<open>actions\<close> does
  not raise, and for every action it returns the index \<^verbatim>\<open>blank_ix + change[action]\<close> lies in
  \<open>[0, 9)\<close>, \<^verbatim>\<open>result\<close> does not raise and its result is again a valid state.
\<close>

theorem Problem_result_valid:
  assumes "valid_state s"
  shows "\<exists>ix acts. tuple_index s 0 = Inr ix \<and> Problem_actions s = Inr acts
           \<and> (\<forall>a\<in>set acts. \<exists>d s'. change a = Some d
                  \<and> 0 \<le> int ix + d \<and> int ix + d < 9
                  \<and> Problem_result s a = Inr s' \<and> valid_state s')"
proof -
  have len: "length s = 9" and st: "set s = {0..8}"
    using assms unfolding valid_state_def by blast+
  have "(0::int) \<in> {0..8}" by simp
  then have "0 \<in> set s" by (simp only: st)
  from tuple_index_Inr[OF this]
  obtain ix where ix: "tuple_index s 0 = Inr ix" "ix < length s" "s ! ix = 0"
    by (elim exE conjE)
  have ix9: "ix < 9" using ix(2) len by simp
  note acts = Problem_actions_eq[OF ix(1)]
  have step: "\<exists>d s'. change a = Some d \<and> 0 \<le> int ix + d \<and> int ix + d < 9
                  \<and> Problem_result s a = Inr s' \<and> valid_state s'"
    if a: "a \<in> set (filter (\<lambda>a.
           (a = ''left'' \<longrightarrow> ix mod 3 \<noteq> 0) \<and> (a = ''up'' \<longrightarrow> \<not> ix < 3)
         \<and> (a = ''right'' \<longrightarrow> ix mod 3 \<noteq> 2) \<and> (a = ''down'' \<longrightarrow> \<not> ix > 5))
           [''left'', ''right'', ''up'', ''down''])" for a
  proof -
    from Problem_actions_mem[OF ix(1) acts a] show ?thesis
    proof (elim disjE conjE)
      assume l: "a = ''left''" "ix mod 3 \<noteq> 0"
      have c: "change a = Some (- 1)" by (simp add: change_def l(1))
      have "ix \<noteq> 0" using l(2) by (intro notI) simp
      then have b: "0 \<le> int ix + (- 1)" "int ix + (- 1) < 9" using ix9 by simp_all
      show ?thesis by (rule Problem_result_step[OF assms ix(1) ix9 c b])
    next
      assume r: "a = ''right''" "ix mod 3 \<noteq> 2"
      have c: "change a = Some 1" by (simp add: change_def r(1))
      have "ix \<noteq> 8" using r(2) by (intro notI) simp
      then have b: "0 \<le> int ix + 1" "int ix + 1 < 9" using ix9 by simp_all
      show ?thesis by (rule Problem_result_step[OF assms ix(1) ix9 c b])
    next
      assume u: "a = ''up''" "\<not> ix < 3"
      have c: "change a = Some (- 3)" by (simp add: change_def u(1))
      have b: "0 \<le> int ix + (- 3)" "int ix + (- 3) < 9" using u(2) ix9 by simp_all
      show ?thesis by (rule Problem_result_step[OF assms ix(1) ix9 c b])
    next
      assume d: "a = ''down''" "\<not> ix > 5"
      have c: "change a = Some 3" by (simp add: change_def d(1))
      have b: "0 \<le> int ix + 3" "int ix + 3 < 9" using d(2) ix9 by simp_all
      show ?thesis by (rule Problem_result_step[OF assms ix(1) ix9 c b])
    qed
  qed
  show ?thesis
    by (rule exI[of _ ix], rule exI, intro conjI ballI, rule ix(1), rule acts, rule step)
qed

lemma ids_loop_all_cutoff:
  "\<forall>d\<in>set ds. depth_limited_search p d = Cutoff \<Longrightarrow> ids_loop p ds = None"
  by (induction ds) simp_all

text \<open>
  Claim C4 fails on the code: when \<^verbatim>\<open>depth_limited_search\<close> yields \<^verbatim>\<open>'cutoff'\<close> at each of the
  limits 0 to 9, the loop of \<^verbatim>\<open>iterative_deepening_search\<close> ends without a \<^verbatim>\<open>return\<close>, and the
  call gives Python's \<^verbatim>\<open>None\<close>, not \<^verbatim>\<open>'failure'\<close>.
\<close>

theorem iterative_deepening_search_no_failure:
  assumes "\<forall>limit<10. depth_limited_search p limit = Cutoff"
  shows "iterative_deepening_search p = None"
  unfolding iterative_deepening_search_def using assms by (intro ids_loop_all_cutoff) simp

text \<open>
  Claim C3 fails on the code at the notebook's own instance: \<^verbatim>\<open>astar_search\<close> assigns
  \<^verbatim>\<open>0 + h(start)\<close> to the root's \<^verbatim>\<open>path_cost\<close>, so the root has path cost 3 (three tiles are
  misplaced), not 0, while its \<^verbatim>\<open>f\<close> stays 0.
\<close>

theorem astar_root_path_cost:
  "h (Problem [2, 4, 3, 1, 5, 6, 7, 8, 0] [1, 2, 3, 4, 5, 6, 7, 8, 0]) None [2, 4, 3, 1, 5, 6, 7, 8, 0] = 3
   \<and> path_cost (astar_root (Problem [2, 4, 3, 1, 5, 6, 7, 8, 0] [1, 2, 3, 4, 5, 6, 7, 8, 0]) None) = 3
   \<and> f (astar_root (Problem [2, 4, 3, 1, 5, 6, 7, 8, 0] [1, 2, 3, 4, 5, 6, 7, 8, 0]) None) = 0"
  by code_simp

theorem solution_round_trip_witness:
  "reachable_node (Problem [2, 4, 3, 1, 5, 6, 7, 8, 0] [1, 2, 3, 4, 5, 6, 7, 8, 0])
     (Node_init (start (Problem [2, 4, 3, 1, 5, 6, 7, 8, 0] [1, 2, 3, 4, 5, 6, 7, 8, 0])) None None 0)
     (child_node (child_node (Node_init [2, 4, 3, 1, 5, 6, 7, 8, 0] None None 0)
        (Problem [2, 4, 3, 1, 5, 6, 7, 8, 0] [1, 2, 3, 4, 5, 6, 7, 8, 0]) ''left'')
        (Problem [2, 4, 3, 1, 5, 6, 7, 8, 0] [1, 2, 3, 4, 5, 6, 7, 8, 0]) ''up'')
   \<and> foldl (result (Problem [2, 4, 3, 1, 5, 6, 7, 8, 0] [1, 2, 3, 4, 5, 6, 7, 8, 0]))
         (start (Problem [2, 4, 3, 1, 5, 6, 7, 8, 0] [1, 2, 3, 4, 5, 6, 7, 8, 0]))
         (path_actions (solution
            (child_node (child_node (Node_init [2, 4, 3, 1, 5, 6, 7, 8, 0] None None 0)
               (Problem [2, 4, 3, 1, 5, 6, 7, 8, 0] [1, 2, 3, 4, 5, 6, 7, 8, 0]) ''left'')
               (Problem [2, 4, 3, 1, 5, 6, 7, 8, 0] [1, 2, 3, 4, 5, 6, 7, 8, 0]) ''up'')))
       = [2, 4, 3, 1, 0, 6, 7, 5, 8]"
proof -
  let ?p = "Problem [2, 4, 3, 1, 5, 6, 7, 8, 0] [1, 2, 3, 4, 5, 6, 7, 8, 0]"
  let ?root = "Node_init (start ?p) None None 0"
  have st: "start ?p = [2, 4, 3, 1, 5, 6, 7, 8, 0]" by (simp add: Problem_def)
  have r: "reachable_node ?p ?root (child_node (child_node ?root ?p ''left'') ?p ''up'')"
    by (intro reach_child reach_root)
  have e: "state (child_node (child_node ?root ?p ''left'') ?p ''up'') = [2, 4, 3, 1, 0, 6, 7, 5, 8]"
    by code_simp
  from solution_round_trip[OF r] r e show ?thesis by (simp only: st)
qed

theorem Problem_result_valid_witness:
  "valid_state [2, 4, 3, 1, 5, 6, 7, 8, 0]
   \<and> (\<exists>ix acts. tuple_index [2, 4, 3, 1, 5, 6, 7, 8, 0] (0::int) = Inr ix
         \<and> Problem_actions [2, 4, 3, 1, 5, 6, 7, 8, 0] = Inr acts
         \<and> (\<forall>a\<in>set acts. \<exists>d s'. change a = Some d
                  \<and> 0 \<le> int ix + d \<and> int ix + d < 9
                  \<and> Problem_result [2, 4, 3, 1, 5, 6, 7, 8, 0] a = Inr s' \<and> valid_state s'))"
proof -
  have v: "valid_state [2, 4, 3, 1, 5, 6, 7, 8, 0]" by code_simp
  show ?thesis by (rule conjI[OF v Problem_result_valid[OF v]])
qed

theorem iterative_deepening_search_no_failure_witness:
  "depth_limited_search chain_problem 0 = Cutoff
   \<and> depth_limited_search chain_problem 9 = Cutoff
   \<and> iterative_deepening_search chain_problem = None"
proof -
  have "\<forall>limit\<in>set [0..<10]. depth_limited_search chain_problem limit = Cutoff"
    by code_simp
  then have h: "\<forall>limit<10. depth_limited_search chain_problem limit = Cutoff"
    by simp
  from iterative_deepening_search_no_failure[OF h] h show ?thesis by simp
qed

lemma legal_append:
  "legal p s (as @ bs) \<longleftrightarrow> legal p s as \<and> legal p (foldl (result p) s as) bs"
  by (induction as arbitrary: s) auto

lemma reach_in_0: "reach_in p 0 s \<longleftrightarrow> s = start p"
  by (auto simp: reach_in_def)

lemma reach_in_Suc:
  "reach_in p (Suc k) s \<longleftrightarrow>
     (\<exists>t a. reach_in p k t \<and> a \<in> set (actions p t) \<and> s = result p t a)"
proof
  assume "reach_in p (Suc k) s"
  then obtain as where as: "length as = Suc k" "legal p (start p) as"
    "foldl (result p) (start p) as = s" by (auto simp: reach_in_def)
  then obtain bs b where bs: "as = bs @ [b]" by (cases as rule: rev_cases) auto
  let ?t = "foldl (result p) (start p) bs"
  have "reach_in p k ?t" using as bs by (auto simp: reach_in_def legal_append)
  moreover have "b \<in> set (actions p ?t)" using as(2) bs by (simp add: legal_append)
  moreover have "s = result p ?t b" using as(3) bs by simp
  ultimately show "\<exists>t a. reach_in p k t \<and> a \<in> set (actions p t) \<and> s = result p t a"
    by blast
next
  assume "\<exists>t a. reach_in p k t \<and> a \<in> set (actions p t) \<and> s = result p t a"
  then obtain t a as where "a \<in> set (actions p t)" "s = result p t a"
    "length as = k" "legal p (start p) as" "foldl (result p) (start p) as = t"
    by (auto simp: reach_in_def)
  then have "length (as @ [a]) = Suc k \<and> legal p (start p) (as @ [a])
      \<and> foldl (result p) (start p) (as @ [a]) = s"
    by (simp add: legal_append)
  then show "reach_in p (Suc k) s" unfolding reach_in_def by blast
qed

lemma legal_node_reachable: "legal_node p root n \<Longrightarrow> reachable_node p root n"
  by (induction rule: legal_node.induct) (auto intro: reachable_node.intros)

lemma legal_node_path:
  assumes "legal_node p root n" and "parent root = None"
  shows "legal p (state root) (path_actions (solution n))"
  using assms
proof (induction rule: legal_node.induct)
  case legal_root
  then show ?case by (simp add: solution_root path_actions_def List.map_filter_def)
next
  case (legal_child n a)
  have r: "foldl (result p) (state root) (path_actions (solution n)) = state n"
    using reachable_solution[OF legal_node_reachable[OF legal_child.hyps(1)] legal_child.prems]
    by blast
  have pa: "path_actions (solution n @ [child_node n p a]) = path_actions (solution n) @ [a]"
    by (rule path_actions_snoc) simp_all
  show ?case
    using legal_child.IH[OF legal_child.prems] legal_child.hyps(2) r
    by (simp add: pa legal_append)
qed

lemma legal_node_props:
  assumes "legal_node p (Node_init (start p) None None 0) n"
  shows "legal p (start p) (path_actions (solution n))"
    and "foldl (result p) (start p) (path_actions (solution n)) = state n"
    and "length (path_actions (solution n)) = depth n"
    and "reach_in p (depth n) (state n)"
proof -
  let ?root = "Node_init (start p) None None 0"
  have par: "parent ?root = None" by simp
  note rs = reachable_solution[OF legal_node_reachable[OF assms] par]
  show l: "legal p (start p) (path_actions (solution n))"
    using legal_node_path[OF assms par] by simp
  show e: "foldl (result p) (start p) (path_actions (solution n)) = state n"
    using rs by simp
  show len: "length (path_actions (solution n)) = depth n"
    using rs by simp
  show "reach_in p (depth n) (state n)"
    unfolding reach_in_def using l e len by blast
qed

lemma in_frontier_iff: "in_frontier c frontier \<longleftrightarrow> state c \<in> state ` set frontier"
  unfolding in_frontier_def node_eq_def image_iff by metis

lemma bfs_expand_Inr:
  "bfs_expand p n acts frontier explored = Inr frontier' \<Longrightarrow>
   \<exists>cs. frontier' = frontier @ cs
      \<and> (\<forall>c\<in>set cs. \<exists>a\<in>set acts. c = child_node n p a
             \<and> state c \<notin> discovered frontier explored)
      \<and> (\<forall>a\<in>set acts. result p (state n) a \<in> discovered frontier' explored)"
proof (induction acts arbitrary: frontier)
  case Nil
  then show ?case by simp
next
  case (Cons a acts)
  let ?c = "child_node n p a"
  show ?case
  proof (cases "state ?c \<notin> explored \<and> \<not> in_frontier ?c frontier")
    case True
    then have ng: "\<not> is_goal_state p (state ?c)"
      and rec: "bfs_expand p n acts (frontier @ [?c]) explored = Inr frontier'"
      using Cons.prems by (auto simp: Let_def split: if_splits)
    from Cons.IH[OF rec] obtain cs where cs: "frontier' = (frontier @ [?c]) @ cs"
      "\<forall>c\<in>set cs. \<exists>a\<in>set acts. c = child_node n p a
             \<and> state c \<notin> discovered (frontier @ [?c]) explored"
      "\<forall>a\<in>set acts. result p (state n) a \<in> discovered frontier' explored"
      by blast
    have new: "state ?c \<notin> discovered frontier explored"
      using True by (simp add: discovered_def in_frontier_iff)
    have sub: "discovered frontier explored \<subseteq> discovered (frontier @ [?c]) explored"
      by (auto simp: discovered_def)
    have "frontier' = frontier @ (?c # cs)" using cs(1) by simp
    moreover have "\<forall>c\<in>set (?c # cs). \<exists>b\<in>set (a # acts). c = child_node n p b
             \<and> state c \<notin> discovered frontier explored"
      using cs(2) new sub by auto
    moreover have "\<forall>b\<in>set (a # acts). result p (state n) b \<in> discovered frontier' explored"
      using cs(3) cs(1) by (auto simp: discovered_def)
    ultimately show ?thesis by blast
  next
    case False
    then have rec: "bfs_expand p n acts frontier explored = Inr frontier'"
      using Cons.prems by (auto simp: Let_def split: if_splits)
    from Cons.IH[OF rec] obtain cs where cs: "frontier' = frontier @ cs"
      "\<forall>c\<in>set cs. \<exists>a\<in>set acts. c = child_node n p a
             \<and> state c \<notin> discovered frontier explored"
      "\<forall>a\<in>set acts. result p (state n) a \<in> discovered frontier' explored"
      by blast
    have "result p (state n) a \<in> discovered frontier explored"
      using False by (auto simp: discovered_def in_frontier_iff)
    then have "result p (state n) a \<in> discovered frontier' explored"
      using cs(1) by (auto simp: discovered_def)
    then show ?thesis using cs by auto
  qed
qed

lemma bfs_expand_Inl:
  "bfs_expand p n acts frontier explored = Inl sol \<Longrightarrow>
   \<exists>a\<in>set acts. sol = solution (child_node n p a)
      \<and> is_goal_state p (state (child_node n p a))
      \<and> state (child_node n p a) \<notin> discovered frontier explored"
proof (induction acts arbitrary: frontier)
  case Nil
  then show ?case by simp
next
  case (Cons a acts)
  let ?c = "child_node n p a"
  show ?case
  proof (cases "state ?c \<notin> explored \<and> \<not> in_frontier ?c frontier")
    case True
    have new: "state ?c \<notin> discovered frontier explored"
      using True by (simp add: discovered_def in_frontier_iff)
    show ?thesis
    proof (cases "is_goal_state p (state ?c)")
      case g: True
      then have "sol = solution ?c" using Cons.prems True by (simp add: Let_def)
      then show ?thesis using g new by auto
    next
      case g: False
      then have rec: "bfs_expand p n acts (frontier @ [?c]) explored = Inl sol"
        using Cons.prems True by (simp add: Let_def)
      have sub: "discovered frontier explored \<subseteq> discovered (frontier @ [?c]) explored"
        by (auto simp: discovered_def)
      from Cons.IH[OF rec] sub show ?thesis by auto
    qed
  next
    case False
    then have rec: "bfs_expand p n acts frontier explored = Inl sol"
      using Cons.prems by (auto simp: Let_def split: if_splits)
    from Cons.IH[OF rec] show ?thesis by auto
  qed
qed

lemma discovered_pop:
  "discovered rest (insert (state x) explored) = discovered (x # rest) explored"
  by (auto simp: discovered_def)

lemma frontier_witness:
  assumes "bfs_inv p frontier explored"
  shows "k \<le> 11 \<Longrightarrow> reach_in p k s \<Longrightarrow> s \<notin> discovered frontier explored
         \<Longrightarrow> \<exists>n\<in>set frontier. depth n < k"
proof (induction k arbitrary: s)
  case 0
  then have "s = start p" by (simp add: reach_in_0)
  then show ?case using assms "0.prems"(3) by (simp add: bfs_inv_def)
next
  case (Suc k)
  from Suc.prems(2) obtain t a where t: "reach_in p k t" "a \<in> set (actions p t)"
    "s = result p t a" by (auto simp: reach_in_Suc)
  have k: "k \<le> 11" "k \<le> 10" using Suc.prems(1) by simp_all
  show ?case
  proof (cases "t \<in> discovered frontier explored")
    case False
    from Suc.IH[OF k(1) t(1) False] show ?thesis by (meson less_Suc_eq)
  next
    case True
    show ?thesis
    proof (cases "t \<in> explored")
      case True
      then have "result p t a \<in> discovered frontier explored"
        using assms k(2) t(1,2) unfolding bfs_inv_def by blast
      then show ?thesis using Suc.prems(3) t(3) by simp
    next
      case False
      then obtain m where m: "m \<in> set frontier" "state m = t"
        using \<open>t \<in> discovered frontier explored\<close> by (auto simp: discovered_def)
      have "depth m \<le> k" using assms m t(1) unfolding bfs_inv_def by blast
      then have "depth m < Suc k" by simp
      then show ?thesis using m(1) by blast
    qed
  qed
qed

lemma new_child_minimal:
  assumes inv: "bfs_inv p (x # rest) explored"
      and new: "state (child_node x p a) \<notin> discovered (x # rest) explored"
      and d: "depth x \<le> 10"
      and r: "reach_in p k (state (child_node x p a))"
  shows "depth (child_node x p a) \<le> k"
proof (rule ccontr)
  assume "\<not> depth (child_node x p a) \<le> k"
  then have k: "k \<le> depth x" by simp
  then have "k \<le> 11" using d by simp
  from frontier_witness[OF inv this r new] obtain n where
    n: "n \<in> set (x # rest)" "depth n < k" by blast
  have "sorted (map depth (x # rest))" using inv by (simp add: bfs_inv_def)
  then have "depth x \<le> depth n" using n(1) by auto
  then show False using n(2) k by simp
qed

lemma bfs_inv_head_least:
  "bfs_inv p (x # rest) explored \<Longrightarrow> n \<in> set rest \<Longrightarrow>
   depth x \<le> depth n \<and> depth n \<le> depth x + 1"
  by (auto simp: bfs_inv_def)

lemma bfs_inv_skip:
  assumes inv: "bfs_inv p (x # rest) explored" and d: "\<not> depth x \<le> 10"
  shows "bfs_inv p rest (insert (state x) explored)"
proof -
  let ?E = "insert (state x) explored"
  have D: "discovered rest ?E = discovered (x # rest) explored" by (rule discovered_pop)
  have i1: "\<forall>n\<in>set rest. legal_node p (Node_init (start p) None None 0) n"
    using inv by (simp add: bfs_inv_def)
  have i2: "sorted (map depth rest)" using inv by (simp add: bfs_inv_def)
  have i2b: "\<forall>n\<in>set rest. depth n \<le> depth (hd rest) + 1"
  proof
    fix n assume n: "n \<in> set rest"
    then have "rest \<noteq> []" by auto
    then have "hd rest \<in> set rest" by simp
    then have "depth x \<le> depth (hd rest)" using bfs_inv_head_least[OF inv] by blast
    moreover have "depth n \<le> depth x + 1" using bfs_inv_head_least[OF inv n] by blast
    ultimately show "depth n \<le> depth (hd rest) + 1" by simp
  qed
  have i3: "\<forall>n\<in>set rest. \<forall>k. reach_in p k (state n) \<longrightarrow> depth n \<le> k"
    using inv by (simp add: bfs_inv_def)
  have i5: "start p \<in> discovered rest ?E" unfolding D using inv by (simp add: bfs_inv_def)
  have i6: "\<forall>t\<in>?E. \<forall>k\<le>10. reach_in p k t \<longrightarrow>
         (\<forall>a\<in>set (actions p t). result p t a \<in> discovered rest ?E)"
  proof (intro ballI allI impI)
    fix t k a
    assume t: "t \<in> ?E" and k: "k \<le> 10" and r: "reach_in p k t" and a: "a \<in> set (actions p t)"
    show "result p t a \<in> discovered rest ?E"
    proof (cases "t = state x")
      case True
      have "depth x \<le> k" using inv r True unfolding bfs_inv_def by simp
      then show ?thesis using d k by simp
    next
      case False
      then have "t \<in> explored" using t by simp
      then show ?thesis unfolding D using inv k r a unfolding bfs_inv_def by blast
    qed
  qed
  show ?thesis unfolding bfs_inv_def using i1 i2 i2b i3 i5 i6 by blast
qed

lemma bfs_inv_expand:
  assumes inv: "bfs_inv p (x # rest) explored" and d: "depth x \<le> 10"
      and ex: "bfs_expand p x (actions p (state x)) rest (insert (state x) explored) = Inr frontier'"
  shows "bfs_inv p frontier' (insert (state x) explored)"
proof -
  let ?E = "insert (state x) explored"
  let ?root = "Node_init (start p) None None 0"
  have D: "discovered rest ?E = discovered (x # rest) explored" by (rule discovered_pop)
  from bfs_expand_Inr[OF ex] obtain cs where cs: "frontier' = rest @ cs"
    and new: "\<forall>c\<in>set cs. \<exists>a\<in>set (actions p (state x)). c = child_node x p a
             \<and> state c \<notin> discovered (x # rest) explored"
    and all: "\<forall>a\<in>set (actions p (state x)). result p (state x) a \<in> discovered frontier' ?E"
    unfolding D by blast
  have sub: "discovered (x # rest) explored \<subseteq> discovered frontier' ?E"
    unfolding cs by (auto simp: discovered_def)
  have xl: "legal_node p ?root x" using inv by (simp add: bfs_inv_def)
  have cdepth: "depth c = depth x + 1" if "c \<in> set cs" for c using new that by auto
  have rdepth: "depth x \<le> depth n \<and> depth n \<le> depth x + 1" if "n \<in> set rest" for n
    using bfs_inv_head_least[OF inv that] .
  have i1: "\<forall>n\<in>set frontier'. legal_node p ?root n"
  proof
    fix n assume "n \<in> set frontier'"
    then consider "n \<in> set rest" | "n \<in> set cs" unfolding cs by auto
    then show "legal_node p ?root n"
    proof cases
      case 1
      then show ?thesis using inv by (simp add: bfs_inv_def)
    next
      case 2
      then obtain a where "a \<in> set (actions p (state x))" "n = child_node x p a"
        using new by blast
      then show ?thesis using legal_child[OF xl] by simp
    qed
  qed
  have "sorted (map depth rest)" using inv by (simp add: bfs_inv_def)
  moreover have "sorted (map depth cs)"
    using cdepth by (induction cs) auto
  ultimately have i2: "sorted (map depth frontier')"
    unfolding cs using cdepth rdepth by (auto simp: sorted_append)
  have bounds: "depth x \<le> depth n \<and> depth n \<le> depth x + 1" if "n \<in> set frontier'" for n
    using that cdepth rdepth unfolding cs by auto
  have i2b: "\<forall>n\<in>set frontier'. depth n \<le> depth (hd frontier') + 1"
  proof
    fix n assume n: "n \<in> set frontier'"
    then have "frontier' \<noteq> []" by auto
    then have "hd frontier' \<in> set frontier'" by simp
    then have "depth x \<le> depth (hd frontier')" using bounds by blast
    then show "depth n \<le> depth (hd frontier') + 1" using bounds[OF n] by simp
  qed
  have i3: "\<forall>n\<in>set frontier'. \<forall>k. reach_in p k (state n) \<longrightarrow> depth n \<le> k"
  proof (intro ballI allI impI)
    fix n k assume n: "n \<in> set frontier'" and r: "reach_in p k (state n)"
    from n consider "n \<in> set rest" | "n \<in> set cs" unfolding cs by auto
    then show "depth n \<le> k"
    proof cases
      case 1
      then show ?thesis using inv r unfolding bfs_inv_def by simp
    next
      case 2
      then obtain a where a: "n = child_node x p a"
        "state n \<notin> discovered (x # rest) explored" using new by blast
      show ?thesis
        using new_child_minimal[OF inv a(2)[unfolded a(1)] d r[unfolded a(1)]] a(1) by simp
    qed
  qed
  have i5: "start p \<in> discovered frontier' ?E"
    using inv sub by (auto simp: bfs_inv_def)
  have i6: "\<forall>t\<in>?E. \<forall>k\<le>10. reach_in p k t \<longrightarrow>
         (\<forall>a\<in>set (actions p t). result p t a \<in> discovered frontier' ?E)"
  proof (intro ballI allI impI)
    fix t k a
    assume t: "t \<in> ?E" and k: "k \<le> 10" and r: "reach_in p k t" and a: "a \<in> set (actions p t)"
    show "result p t a \<in> discovered frontier' ?E"
    proof (cases "t = state x")
      case True
      then show ?thesis using all a by simp
    next
      case False
      then have "t \<in> explored" using t by simp
      then have "result p t a \<in> discovered (x # rest) explored"
        using inv k r a unfolding bfs_inv_def by blast
      then show ?thesis using sub by blast
    qed
  qed
  show ?thesis unfolding bfs_inv_def using i1 i2 i2b i3 i5 i6 by blast
qed

lemma bfs_found:
  assumes inv: "bfs_inv p (x # rest) explored" and d: "depth x \<le> 10"
      and ex: "bfs_expand p x (actions p (state x)) rest (insert (state x) explored) = Inl sol"
  shows "\<exists>c. sol = solution c \<and> legal_node p (Node_init (start p) None None 0) c
           \<and> is_goal_state p (state c) \<and> (\<forall>k. reach_in p k (state c) \<longrightarrow> depth c \<le> k)"
proof -
  have D: "discovered rest (insert (state x) explored) = discovered (x # rest) explored"
    by (rule discovered_pop)
  from bfs_expand_Inl[OF ex] obtain a where a: "a \<in> set (actions p (state x))"
    "sol = solution (child_node x p a)" "is_goal_state p (state (child_node x p a))"
    "state (child_node x p a) \<notin> discovered (x # rest) explored"
    unfolding D by blast
  have xl: "legal_node p (Node_init (start p) None None 0) x"
    using inv by (simp add: bfs_inv_def)
  have "legal_node p (Node_init (start p) None None 0) (child_node x p a)"
    using legal_child[OF xl a(1)] .
  moreover have "\<forall>k. reach_in p k (state (child_node x p a)) \<longrightarrow> depth (child_node x p a) \<le> k"
    using new_child_minimal[OF inv a(4) d] by blast
  ultimately show ?thesis using a(2,3) by blast
qed

lemma bfs_loop_correct:
  "bfs_loop p frontier explored = Some r \<Longrightarrow> bfs_inv p frontier explored \<Longrightarrow>
   r = Solution sol \<Longrightarrow>
   \<exists>c. sol = solution c \<and> legal_node p (Node_init (start p) None None 0) c
      \<and> is_goal_state p (state c) \<and> (\<forall>k. reach_in p k (state c) \<longrightarrow> depth c \<le> k)"
proof (induction arbitrary: sol rule: bfs_loop.raw_induct[rotated 1, consumes 1])
  case (1 loop p frontier explored r)
  show ?case
  proof (cases frontier)
    case Nil
    then show ?thesis using "1.hyps" "1.prems"(2) by simp
  next
    case (Cons x rest)
    note inv = "1.prems"(1)[unfolded Cons]
    show ?thesis
    proof (cases "depth x \<le> 10")
      case False
      then have "loop p rest (insert (state x) explored) = Some r"
        using "1.hyps" Cons by (simp add: Let_def)
      from "1.IH"[OF this bfs_inv_skip[OF inv False] "1.prems"(2)] show ?thesis .
    next
      case True
      show ?thesis
      proof (cases "bfs_expand p x (actions p (state x)) rest (insert (state x) explored)")
        case (Inl s)
        then have "r = Solution s" using "1.hyps" Cons True by (simp add: Let_def)
        then have "s = sol" using "1.prems"(2) by simp
        then show ?thesis using bfs_found[OF inv True Inl] by simp
      next
        case (Inr frontier')
        then have "loop p frontier' (insert (state x) explored) = Some r"
          using "1.hyps" Cons True by (simp add: Let_def)
        from "1.IH"[OF this bfs_inv_expand[OF inv True Inr] "1.prems"(2)] show ?thesis .
      qed
    qed
  qed
qed

lemma bfs_inv_init:
  "bfs_inv p [Node_init (start p) None None 0] {}"
  by (simp add: bfs_inv_def discovered_def legal_root)

text \<open>
  Claim C2. Whenever \<^verbatim>\<open>breadth_first_search\<close> returns a path, the path's actions lead from
  the start state to the goal state, and no action sequence leading from the start state
  to the goal state is shorter.
\<close>

theorem breadth_first_search_shortest:
  assumes "breadth_first_search p = Some (Solution path)"
      and "legal p (start p) as"
      and "is_goal_state p (foldl (result p) (start p) as)"
  shows "legal p (start p) (path_actions path)
       \<and> is_goal_state p (foldl (result p) (start p) (path_actions path))
       \<and> length (path_actions path) \<le> length as"
proof (cases "is_goal_state p (start p)")
  case True
  then have "path = solution (Node_init (start p) None None 0)"
    using assms(1) by (simp add: breadth_first_search_def Let_def)
  then have "path_actions path = []"
    by (simp add: solution_root path_actions_def List.map_filter_def)
  then show ?thesis using True by simp
next
  case False
  then have "bfs_loop p [Node_init (start p) None None 0] {} = Some (Solution path)"
    using assms(1) by (simp add: breadth_first_search_def Let_def)
  from bfs_loop_correct[OF this bfs_inv_init refl] obtain c where
    c: "path = solution c" "legal_node p (Node_init (start p) None None 0) c"
       "is_goal_state p (state c)" "\<forall>k. reach_in p k (state c) \<longrightarrow> depth c \<le> k"
    by blast
  note props = legal_node_props[OF c(2)]
  have "reach_in p (length as) (state c)"
    unfolding reach_in_def using assms(2,3) c(3) by (auto simp: is_goal_state_def)
  then have "depth c \<le> length as" using c(4) by blast
  then show ?thesis using props c(1,3) by simp
qed

theorem breadth_first_search_shortest_witness:
  "breadth_first_search (Problem [1, 2, 3, 4, 5, 6, 7, 0, 8] [1, 2, 3, 4, 5, 6, 7, 8, 0])
     = Some (Solution (solution (child_node (Node_init [1, 2, 3, 4, 5, 6, 7, 0, 8] None None 0)
         (Problem [1, 2, 3, 4, 5, 6, 7, 0, 8] [1, 2, 3, 4, 5, 6, 7, 8, 0]) ''right'')))
   \<and> legal (Problem [1, 2, 3, 4, 5, 6, 7, 0, 8] [1, 2, 3, 4, 5, 6, 7, 8, 0])
         (start (Problem [1, 2, 3, 4, 5, 6, 7, 0, 8] [1, 2, 3, 4, 5, 6, 7, 8, 0])) [''right'']
   \<and> length (path_actions (solution (child_node (Node_init [1, 2, 3, 4, 5, 6, 7, 0, 8] None None 0)
         (Problem [1, 2, 3, 4, 5, 6, 7, 0, 8] [1, 2, 3, 4, 5, 6, 7, 8, 0]) ''right'')))
       \<le> length [''right'']"
proof -
  let ?p = "Problem [1, 2, 3, 4, 5, 6, 7, 0, 8] [1, 2, 3, 4, 5, 6, 7, 8, 0]"
  let ?path = "solution (child_node (Node_init [1, 2, 3, 4, 5, 6, 7, 0, 8] None None 0) ?p ''right'')"
  have h1: "breadth_first_search ?p = Some (Solution ?path)" by code_simp
  have h2: "legal ?p (start ?p) [''right'']" by code_simp
  have h3: "is_goal_state ?p (foldl (result ?p) (start ?p) [''right''])" by code_simp
  have "length (path_actions ?path) \<le> length [''right'']"
    using breadth_first_search_shortest[OF h1 h2 h3] by (elim conjE)
  then show ?thesis by (intro conjI h1 h2)
qed

lemma path_node_solution:
  "path_node p n \<Longrightarrow>
     legal p (start p) (path_actions (solution n))
   \<and> foldl (result p) (start p) (path_actions (solution n)) = state n
   \<and> length (path_actions (solution n)) = depth n"
proof (induction rule: path_node.induct)
  case (path_root n)
  then show ?case by (simp add: solution_root path_actions_def List.map_filter_def)
next
  case (path_child q n a)
  have s: "solution n = solution q @ [n]" using path_child.hyps(2) by (rule solution_child)
  have pa: "path_actions (solution q @ [n]) = path_actions (solution q) @ [a]"
    using path_child.hyps(3) by (intro path_actions_snoc) simp_all
  show ?case using path_child.IH path_child.hyps(4,5,6) by (simp add: s pa legal_append)
qed

lemma set_siftdown_loop:
  "pos < length heap \<Longrightarrow>
   set (siftdown_loop heap startpos newitem pos) \<subseteq> insert newitem (set heap)"
proof (induction heap startpos newitem pos rule: siftdown_loop.induct)
  case (1 heap startpos newitem pos)
  show ?case
  proof (cases "pos > startpos \<and> node_lt newitem (heap ! ((pos - 1) div 2))")
    case True
    let ?pp = "(pos - 1) div 2"
    have pp: "?pp < length heap" using "1.prems" by simp
    have e: "siftdown_loop heap startpos newitem pos
          = siftdown_loop (heap[pos := heap ! ?pp]) startpos newitem ?pp"
      using True by (subst siftdown_loop.simps) (simp add: Let_def)
    have "set (siftdown_loop (heap[pos := heap ! ?pp]) startpos newitem ?pp)
          \<subseteq> insert newitem (set (heap[pos := heap ! ?pp]))"
      using "1.IH"[OF _ refl refl] True pp by simp
    moreover have "set (heap[pos := heap ! ?pp]) \<subseteq> set heap"
      using pp set_update_subset_insert[of heap pos "heap ! ?pp"] by auto
    ultimately show ?thesis unfolding e by blast
  next
    case False
    then have e: "siftdown_loop heap startpos newitem pos = heap[pos := newitem]"
      by (subst siftdown_loop.simps) (auto simp: Let_def)
    show ?thesis unfolding e by (rule set_update_subset_insert)
  qed
qed

lemma set_siftdown: "pos < length heap \<Longrightarrow> set (siftdown heap startpos pos) \<subseteq> set heap"
  using set_siftdown_loop[of pos heap startpos "heap ! pos"] by (auto simp: siftdown_def)

lemma set_heappush: "set (heappush heap item) \<subseteq> insert item (set heap)"
  using set_siftdown[of "length heap" "heap @ [item]" 0] by (auto simp: heappush_def)

lemma siftup_loop_props:
  "endpos \<le> length heap \<Longrightarrow> pos < length heap \<Longrightarrow> siftup_loop heap endpos pos = (heap', pos')
   \<Longrightarrow> set heap' \<subseteq> set heap \<and> length heap' = length heap \<and> pos' < length heap"
proof (induction heap endpos pos arbitrary: heap' pos' rule: siftup_loop.induct)
  case (1 heap endpos pos)
  show ?case
  proof (cases "2 * pos + 1 < endpos")
    case False
    then have "siftup_loop heap endpos pos = (heap, pos)"
      by (subst siftup_loop.simps) (simp add: Let_def)
    then show ?thesis using "1.prems" by simp
  next
    case True
    define cp where "cp = (if 2 * pos + 1 + 1 < endpos
          \<and> \<not> node_lt (heap ! (2 * pos + 1)) (heap ! (2 * pos + 1 + 1))
        then 2 * pos + 1 + 1 else 2 * pos + 1)"
    have cp: "cp < endpos" using True by (simp add: cp_def)
    then have cpl: "cp < length heap" using "1.prems"(1) by simp
    have e: "siftup_loop heap endpos pos = siftup_loop (heap[pos := heap ! cp]) endpos cp"
      using True by (subst siftup_loop.simps) (simp add: Let_def cp_def)
    have r: "siftup_loop (heap[pos := heap ! cp]) endpos cp = (heap', pos')"
      using "1.prems"(3) e by simp
    have "set heap' \<subseteq> set (heap[pos := heap ! cp])
        \<and> length heap' = length (heap[pos := heap ! cp]) \<and> pos' < length (heap[pos := heap ! cp])"
      using "1.IH"[OF refl True refl refl, folded cp_def, OF _ _ r] "1.prems"(1) cpl by simp
    moreover have "set (heap[pos := heap ! cp]) \<subseteq> set heap"
      using cpl set_update_subset_insert[of heap pos "heap ! cp"] by auto
    ultimately show ?thesis by auto
  qed
qed

lemma set_siftup: "pos < length heap \<Longrightarrow> set (siftup heap pos) \<subseteq> set heap"
proof -
  assume pos: "pos < length heap"
  obtain heap' pos' where r: "siftup_loop heap (length heap) pos = (heap', pos')"
    by (cases "siftup_loop heap (length heap) pos")
  from siftup_loop_props[OF _ pos r]
  have p: "set heap' \<subseteq> set heap" "length heap' = length heap" "pos' < length heap" by simp_all
  have "set (heap'[pos' := heap ! pos]) \<subseteq> insert (heap ! pos) (set heap')"
    by (rule set_update_subset_insert)
  then have u: "set (heap'[pos' := heap ! pos]) \<subseteq> set heap" using p(1) pos by auto
  have "set (siftdown (heap'[pos' := heap ! pos]) pos pos') \<subseteq> set (heap'[pos' := heap ! pos])"
    by (rule set_siftdown) (simp add: p)
  then show ?thesis using u by (simp add: siftup_def Let_def r)
qed

lemma heappop_props:
  assumes "heap \<noteq> []" and "heappop heap = (n, heap')"
  shows "n \<in> set heap \<and> set heap' \<subseteq> set heap"
proof (cases "butlast heap = []")
  case True
  then have "n = last heap" "heap' = []" using assms(2) by (simp_all add: heappop_def Let_def)
  then show ?thesis using assms(1) by simp
next
  case False
  let ?b = "butlast heap"
  have n: "n = ?b ! 0" and h: "heap' = siftup (?b[0 := last heap]) 0"
    using assms(2) False by (simp_all add: heappop_def Let_def)
  have sub: "set ?b \<subseteq> set heap" by (auto dest: in_set_butlastD)
  have "0 < length ?b" using False by (cases ?b) simp_all
  then have "?b ! 0 \<in> set ?b" by (rule nth_mem)
  then have nin: "n \<in> set heap" using n sub by blast
  have "set (?b[0 := last heap]) \<subseteq> insert (last heap) (set ?b)"
    by (rule set_update_subset_insert)
  then have u: "set (?b[0 := last heap]) \<subseteq> set heap" using sub assms(1) by auto
  have "0 < length (?b[0 := last heap])" using False by (cases ?b) simp_all
  then have "set (siftup (?b[0 := last heap]) 0) \<subseteq> set (?b[0 := last heap])"
    by (rule set_siftup)
  then show ?thesis using nin u h by blast
qed

lemma set_list_remove: "set (list_remove xs el) \<subseteq> set xs"
  by (induction xs) auto

lemma set_replace_loop: "set (replace_loop frontier child i) \<subseteq> insert child (set frontier)"
proof (induction frontier child i rule: replace_loop.induct)
  case (1 frontier child i)
  show ?case
  proof (cases "i < length frontier")
    case False
    then have "replace_loop frontier child i = frontier"
      by (subst replace_loop.simps) simp
    then show ?thesis by auto
  next
    case True
    show ?thesis
    proof (cases "node_eq (frontier ! i) child \<and> f child < f (frontier ! i)")
      case r: True
      let ?fr = "heappush (list_remove frontier (frontier ! i)) child"
      have e: "replace_loop frontier child i = replace_loop ?fr child (i + 1)"
        using True r by (subst replace_loop.simps) (simp add: Let_def)
      have "set (replace_loop ?fr child (i + 1)) \<subseteq> insert child (set ?fr)"
        using "1.IH"(1)[OF True refl] r by simp
      moreover have "set ?fr \<subseteq> insert child (set frontier)"
        using set_heappush[of "list_remove frontier (frontier ! i)" child]
          set_list_remove[of frontier "frontier ! i"] by blast
      ultimately show ?thesis unfolding e by blast
    next
      case r: False
      have e: "replace_loop frontier child i = replace_loop frontier child (i + 1)"
        using True r by (subst replace_loop.simps) (auto simp: Let_def)
      show ?thesis unfolding e using "1.IH"(2)[OF True refl] r by simp
    qed
  qed
qed

lemma set_astar_expand:
  "m \<in> set (astar_expand p heuristic n acts frontier explored) \<Longrightarrow>
   m \<in> set frontier
   \<or> (\<exists>a\<in>set acts. \<exists>v. m = set_f (child_node n p a) v)"
proof (induction acts arbitrary: frontier)
  case Nil
  then show ?case by simp
next
  case (Cons a acts)
  let ?c0 = "child_node n p a"
  let ?c = "set_f ?c0 (path_cost ?c0 + h p heuristic (state ?c0))"
  define fr' where "fr' = (if state ?c \<notin> explored \<and> \<not> in_frontier ?c frontier
      then heappush frontier ?c
      else if in_frontier ?c frontier then replace_loop frontier ?c 0 else frontier)"
  have e: "astar_expand p heuristic n (a # acts) frontier explored
         = astar_expand p heuristic n acts fr' explored"
    by (simp add: Let_def fr'_def)
  have sub: "set fr' \<subseteq> insert ?c (set frontier)"
    unfolding fr'_def using set_heappush[of frontier ?c] set_replace_loop[of frontier ?c 0]
    by auto
  from Cons.prems have "m \<in> set (astar_expand p heuristic n acts fr' explored)"
    unfolding e .
  from Cons.IH[OF this] show ?case using sub by auto
qed

lemma set_f_sel [simp]:
  "state (set_f n v) = state n" "parent (set_f n v) = parent n" "action (set_f n v) = action n"
  "depth (set_f n v) = depth n" "path_cost (set_f n v) = path_cost n" "f (set_f n v) = v"
  by (simp_all add: set_f_def)

lemma path_node_child:
  assumes "path_node p n" and "a \<in> set (actions p (state n))"
  shows "path_node p (set_f (child_node n p a) v)"
  by (rule path_child[OF assms(1), of _ a]) (simp_all add: assms(2))

lemma astar_inv_expand:
  assumes "astar_inv p frontier" and "path_node p n" and "depth n \<le> 10"
  shows "astar_inv p (astar_expand p heuristic n (actions p (state n)) frontier explored)"
  unfolding astar_inv_def
proof
  fix m assume "m \<in> set (astar_expand p heuristic n (actions p (state n)) frontier explored)"
  from set_astar_expand[OF this] show "path_node p m \<and> depth m \<le> 11"
  proof
    assume "m \<in> set frontier"
    then show ?thesis using assms(1) by (simp add: astar_inv_def)
  next
    assume "\<exists>a\<in>set (actions p (state n)). \<exists>v. m = set_f (child_node n p a) v"
    then obtain a v where a: "a \<in> set (actions p (state n))" "m = set_f (child_node n p a) v"
      by blast
    show ?thesis using path_node_child[OF assms(2) a(1), of v] assms(3) a(2) by simp
  qed
qed

lemma astar_loop_sound:
  "astar_loop p heuristic frontier explored = Some r \<Longrightarrow> astar_inv p frontier \<Longrightarrow>
   r = Solution sol \<Longrightarrow>
   \<exists>n. sol = solution n \<and> path_node p n \<and> depth n \<le> 11 \<and> is_goal_state p (state n)"
proof (induction arbitrary: sol rule: astar_loop.raw_induct[rotated 1, consumes 1])
  case (1 loop p heuristic frontier explored r)
  show ?case
  proof (cases "frontier = []")
    case True
    then show ?thesis using "1.hyps" "1.prems"(2) by simp
  next
    case False
    obtain n frontier' where pop: "heappop frontier = (n, frontier')"
      by (cases "heappop frontier")
    from heappop_props[OF False pop] have nin: "n \<in> set frontier"
      and sub: "set frontier' \<subseteq> set frontier" by simp_all
    have pn: "path_node p n" "depth n \<le> 11" using "1.prems"(1) nin by (simp_all add: astar_inv_def)
    have inv': "astar_inv p frontier'" using "1.prems"(1) sub by (auto simp: astar_inv_def)
    show ?thesis
    proof (cases "is_goal_state p (state n)")
      case True
      then have "r = Solution (solution n)" using "1.hyps" False pop by simp
      then show ?thesis using "1.prems"(2) pn True by auto
    next
      case ng: False
      show ?thesis
      proof (cases "depth n \<le> 10")
        case True
        then have "loop p heuristic
            (astar_expand p heuristic n (actions p (state n)) frontier' (insert (state n) explored))
            (insert (state n) explored) = Some r"
          using "1.hyps" False pop ng by (simp add: Let_def)
        from "1.IH"[OF this astar_inv_expand[OF inv' pn(1) True] "1.prems"(2)] show ?thesis .
      next
        case d: False
        then have "loop p heuristic frontier' (insert (state n) explored) = Some r"
          using "1.hyps" False pop ng by (simp add: Let_def)
        from "1.IH"[OF this inv' "1.prems"(2)] show ?thesis .
      qed
    qed
  qed
qed

lemma astar_root_sel [simp]:
  "state (astar_root p heuristic) = start p" "parent (astar_root p heuristic) = None"
  "action (astar_root p heuristic) = None" "depth (astar_root p heuristic) = 0"
  "path_cost (astar_root p heuristic) = h p heuristic (start p)"
  "f (astar_root p heuristic) = 0"
  by (simp_all add: astar_root_def set_path_cost_def Let_def)

lemma path_node_astar_root: "path_node p (astar_root p heuristic)"
  by (rule path_root) simp_all

lemma astar_search_path:
  assumes "astar_search p heuristic = Some (Solution path)"
  shows "\<exists>n. path = solution n \<and> path_node p n \<and> depth n \<le> 11 \<and> is_goal_state p (state n)"
proof (cases "is_goal_state p (start p)")
  case True
  then have "path = solution (astar_root p heuristic)"
    using assms by (simp add: astar_search_def Let_def)
  then show ?thesis using True path_node_astar_root[of p heuristic] by auto
next
  case False
  then have l: "astar_loop p heuristic (heappush [] (astar_root p heuristic)) {}
      = Some (Solution path)"
    using assms by (simp add: astar_search_def Let_def)
  have "astar_inv p (heappush [] (astar_root p heuristic))"
    unfolding astar_inv_def
    using set_heappush[of "[]" "astar_root p heuristic"] path_node_astar_root[of p heuristic]
    by auto
  from astar_loop_sound[OF l this refl] show ?thesis .
qed

lemma mset_move_hole:
  assumes "i < length xs" and "j < length xs"
  shows "mset (xs[i := xs ! j, j := x]) = mset (xs[i := x])"
proof (cases "i = j")
  case True
  then show ?thesis by simp
next
  case False
  let ?L = "xs[i := x]"
  have "mset (?L[j := ?L ! i, i := ?L ! j]) = mset ?L"
    using assms by (intro mset_swap) simp_all
  moreover have "?L[j := ?L ! i, i := ?L ! j] = xs[i := xs ! j, j := x]"
    using assms False by (simp add: list_update_swap[of i j])
  ultimately show ?thesis by simp
qed

lemma mset_siftdown_loop:
  "pos < length heap \<Longrightarrow>
   mset (siftdown_loop heap startpos newitem pos) = mset (heap[pos := newitem])"
proof (induction heap startpos newitem pos rule: siftdown_loop.induct)
  case (1 heap startpos newitem pos)
  show ?case
  proof (cases "pos > startpos \<and> node_lt newitem (heap ! ((pos - 1) div 2))")
    case True
    let ?pp = "(pos - 1) div 2"
    have pp: "?pp < length heap" using "1.prems" by simp
    have e: "siftdown_loop heap startpos newitem pos
          = siftdown_loop (heap[pos := heap ! ?pp]) startpos newitem ?pp"
      using True by (subst siftdown_loop.simps) (simp add: Let_def)
    have "mset (siftdown_loop (heap[pos := heap ! ?pp]) startpos newitem ?pp)
          = mset (heap[pos := heap ! ?pp, ?pp := newitem])"
      using "1.IH"[OF _ refl refl] True pp by simp
    also have "\<dots> = mset (heap[pos := newitem])"
      using mset_move_hole[OF "1.prems" pp] .
    finally show ?thesis unfolding e .
  next
    case False
    then have e: "siftdown_loop heap startpos newitem pos = heap[pos := newitem]"
      by (subst siftdown_loop.simps) (auto simp: Let_def)
    show ?thesis unfolding e ..
  qed
qed

lemma child_cases:
  "0 < c \<Longrightarrow> (c - 1) div 2 = pos \<Longrightarrow> c = 2 * pos + 1 \<or> c = 2 * pos + (2::nat)"
  by presburger

lemma parent_less: "i < n \<Longrightarrow> (i - 1) div 2 < (n::nat)"
  by presburger

lemma parent_less_self: "0 < i \<Longrightarrow> (i - 1) div 2 < (i::nat)"
  by presburger

lemma siftdown_loop_heap_ok_aux:
  "startpos = 0 \<Longrightarrow> hole_ok heap pos \<Longrightarrow>
   (\<forall>c. 0 < c \<and> c < length heap \<and> (c - 1) div 2 = pos \<longrightarrow> f newitem \<le> f (heap ! c)) \<Longrightarrow>
   heap_ok (siftdown_loop heap startpos newitem pos)"
proof (induction heap startpos newitem pos rule: siftdown_loop.induct)
  case (1 heap startpos newitem pos)
  note s0 = "1.prems"(1)
  let ?pp = "(pos - 1) div 2"
  let ?n = "length heap"
  have pos: "pos < ?n" using "1.prems"(2) by (simp add: hole_ok_def)
  have pairs: "\<And>i. 0 < i \<Longrightarrow> i < ?n \<Longrightarrow> i \<noteq> pos \<Longrightarrow> (i - 1) div 2 \<noteq> pos
          \<Longrightarrow> f (heap ! ((i - 1) div 2)) \<le> f (heap ! i)"
    using "1.prems"(2) by (simp add: hole_ok_def)
  have gp: "\<And>c. 0 < c \<Longrightarrow> c < ?n \<Longrightarrow> (c - 1) div 2 = pos \<Longrightarrow> 0 < pos
          \<Longrightarrow> f (heap ! ?pp) \<le> f (heap ! c)"
    using "1.prems"(2) by (simp add: hole_ok_def)
  have ch: "\<And>c. 0 < c \<Longrightarrow> c < ?n \<Longrightarrow> (c - 1) div 2 = pos \<Longrightarrow> f newitem \<le> f (heap ! c)"
    using "1.prems"(3) by simp
  show ?case
  proof (cases "pos > 0 \<and> node_lt newitem (heap ! ?pp)")
    case True
    then have p0: "0 < pos" and lt: "f newitem < f (heap ! ?pp)" by (simp_all add: node_lt_def)
    have pp: "?pp < ?n" "?pp < pos" using pos p0 by simp_all
    let ?h = "heap[pos := heap ! ?pp]"
    have e: "siftdown_loop heap startpos newitem pos = siftdown_loop ?h startpos newitem ?pp"
      using True s0 by (subst siftdown_loop.simps) (simp add: Let_def)
    have nth: "\<And>i. i < ?n \<Longrightarrow> ?h ! i = (if i = pos then heap ! ?pp else heap ! i)"
      by (simp add: nth_list_update)
    have hole: "hole_ok ?h ?pp"
      unfolding hole_ok_def
    proof (intro conjI allI impI)
      show "?pp < length ?h" using pp by simp
    next
      fix i assume i: "0 < i \<and> i < length ?h \<and> i \<noteq> ?pp \<and> (i - 1) div 2 \<noteq> ?pp"
      then have il: "i < ?n" by simp
      then have ipl: "(i - 1) div 2 < ?n" by (rule parent_less)
      show "f (?h ! ((i - 1) div 2)) \<le> f (?h ! i)"
      proof (cases "(i - 1) div 2 = pos")
        case True
        then have "i \<noteq> pos" using i by auto
        then show ?thesis using True gp[of i] i il p0 by (simp add: nth ipl)
      next
        case False
        have "i \<noteq> pos" using i by auto
        then show ?thesis using False pairs[of i] i il by (simp add: nth ipl)
      qed
    next
      fix c assume c: "0 < c \<and> c < length ?h \<and> (c - 1) div 2 = ?pp \<and> 0 < ?pp"
      then have cl: "c < ?n" by simp
      have g: "f (heap ! ((?pp - 1) div 2)) \<le> f (heap ! ?pp)"
        using pairs[of ?pp] c pp by simp
      have gl: "(?pp - 1) div 2 < ?n" "(?pp - 1) div 2 \<noteq> pos" using pp by simp_all
      show "f (?h ! ((?pp - 1) div 2)) \<le> f (?h ! c)"
      proof (cases "c = pos")
        case True
        then show ?thesis using g gl by (simp add: nth pos)
      next
        case False
        have "f (heap ! ?pp) \<le> f (heap ! c)"
          using pairs[of c] c cl False pp by simp
        then show ?thesis using g gl False by (simp add: nth cl)
      qed
    qed
    have chn: "\<forall>c. 0 < c \<and> c < length ?h \<and> (c - 1) div 2 = ?pp \<longrightarrow> f newitem \<le> f (?h ! c)"
    proof (intro allI impI)
      fix c assume c: "0 < c \<and> c < length ?h \<and> (c - 1) div 2 = ?pp"
      then have cl: "c < ?n" by simp
      show "f newitem \<le> f (?h ! c)"
      proof (cases "c = pos")
        case True
        then show ?thesis using lt by (simp add: nth pos)
      next
        case False
        have "f (heap ! ?pp) \<le> f (heap ! c)"
          using pairs[of c] c cl False pp by simp
        then show ?thesis using lt False by (simp add: nth cl)
      qed
    qed
    show ?thesis unfolding e using "1.IH"[OF _ refl refl _ s0 hole chn] True s0 by simp
  next
    case False
    then have e: "siftdown_loop heap startpos newitem pos = heap[pos := newitem]"
      using s0 by (subst siftdown_loop.simps) (auto simp: Let_def)
    let ?h = "heap[pos := newitem]"
    have nth: "\<And>i. i < ?n \<Longrightarrow> ?h ! i = (if i = pos then newitem else heap ! i)"
      by (simp add: nth_list_update)
    have "heap_ok ?h"
      unfolding heap_ok_def
    proof (intro allI impI)
      fix i assume i: "0 < i \<and> i < length ?h"
      then have il: "i < ?n" by simp
      then have ipl: "(i - 1) div 2 < ?n" by (rule parent_less)
      show "f (?h ! ((i - 1) div 2)) \<le> f (?h ! i)"
      proof (cases "i = pos")
        case True
        then have "\<not> node_lt newitem (heap ! ?pp)" using False i by simp
        then have "f (heap ! ?pp) \<le> f newitem" by (simp add: node_lt_def)
        moreover have "?pp \<noteq> pos" using True i parent_less_self[of pos] by simp
        ultimately show ?thesis using True ipl pos by (simp add: nth)
      next
        case ni: False
        show ?thesis
        proof (cases "(i - 1) div 2 = pos")
          case True
          then show ?thesis using ch[of i] i il ni by (simp add: nth ipl)
        next
          case npar: False
          then show ?thesis using pairs[of i] i il ni by (simp add: nth ipl)
        qed
      qed
    qed
    then show ?thesis unfolding e .
  qed
qed

lemma siftdown_loop_heap_ok:
  "hole_ok heap pos \<Longrightarrow>
   (\<forall>c. 0 < c \<and> c < length heap \<and> (c - 1) div 2 = pos \<longrightarrow> f newitem \<le> f (heap ! c)) \<Longrightarrow>
   heap_ok (siftdown_loop heap 0 newitem pos)"
  by (rule siftdown_loop_heap_ok_aux[OF refl])

lemma heap_ok_hole_leaf:
  assumes "heap_ok heap"
  shows "hole_ok (heap @ [item]) (length heap)"
  unfolding hole_ok_def
proof (intro conjI allI impI)
  show "length heap < length (heap @ [item])" by simp
next
  fix i assume i: "0 < i \<and> i < length (heap @ [item]) \<and> i \<noteq> length heap
      \<and> (i - 1) div 2 \<noteq> length heap"
  then have "i < length heap" by simp
  then have "i < length heap" "(i - 1) div 2 < length heap" by (simp_all add: parent_less)
  then show "f ((heap @ [item]) ! ((i - 1) div 2)) \<le> f ((heap @ [item]) ! i)"
    using assms i by (simp add: heap_ok_def nth_append)
next
  fix c assume c: "0 < c \<and> c < length (heap @ [item]) \<and> (c - 1) div 2 = length heap
      \<and> 0 < length heap"
  then have False by auto
  then show "f ((heap @ [item]) ! ((length heap - 1) div 2)) \<le> f ((heap @ [item]) ! c)" ..
qed

lemma heappush_heap_ok:
  assumes "heap_ok heap"
  shows "heap_ok (heappush heap item)"
proof -
  have "\<forall>c. 0 < c \<and> c < length (heap @ [item]) \<and> (c - 1) div 2 = length heap
      \<longrightarrow> f ((heap @ [item]) ! length heap) \<le> f ((heap @ [item]) ! c)"
    by auto
  from siftdown_loop_heap_ok[OF heap_ok_hole_leaf[OF assms] this]
  show ?thesis by (simp add: heappush_def siftdown_def)
qed

lemma mset_heappush: "mset (heappush heap item) = add_mset item (mset heap)"
  by (simp add: heappush_def siftdown_def mset_siftdown_loop)

lemma heap_ok_root_min:
  assumes "heap_ok xs"
  shows "i < length xs \<Longrightarrow> f (xs ! 0) \<le> f (xs ! i)"
proof (induction i rule: less_induct)
  case (less i)
  show ?case
  proof (cases "i = 0")
    case True
    then show ?thesis by simp
  next
    case False
    then have i0: "0 < i" by simp
    have p: "(i - 1) div 2 < i" using i0 by (rule parent_less_self)
    have "f (xs ! 0) \<le> f (xs ! ((i - 1) div 2))"
      using less.IH[OF p] p less.prems by simp
    also have "\<dots> \<le> f (xs ! i)" using assms i0 less.prems by (simp add: heap_ok_def)
    finally show ?thesis .
  qed
qed

lemma heap_ok_butlast: "heap_ok xs \<Longrightarrow> heap_ok (butlast xs)"
  unfolding heap_ok_def
proof (intro allI impI)
  fix i assume a: "\<forall>i. 0 < i \<and> i < length xs \<longrightarrow> f (xs ! ((i - 1) div 2)) \<le> f (xs ! i)"
    and i: "0 < i \<and> i < length (butlast xs)"
  then have il: "i < length xs - 1" by simp
  then have ipl: "(i - 1) div 2 < length xs - 1" by (rule parent_less)
  have "0 < i \<and> i < length xs" using i il by arith
  with a have "f (xs ! ((i - 1) div 2)) \<le> f (xs ! i)" by blast
  then show "f (butlast xs ! ((i - 1) div 2)) \<le> f (butlast xs ! i)"
    using il ipl by (simp add: nth_butlast)
qed

lemma siftup_loop_hole:
  "hole_ok heap pos \<Longrightarrow> endpos = length heap \<Longrightarrow> siftup_loop heap endpos pos = (heap', pos')
   \<Longrightarrow> hole_ok heap' pos' \<and> length heap' = length heap \<and> \<not> 2 * pos' + 1 < length heap
       \<and> (\<forall>x. mset (heap'[pos' := x]) = mset (heap[pos := x]))"
proof (induction heap endpos pos arbitrary: heap' pos' rule: siftup_loop.induct)
  case (1 heap endpos pos)
  let ?n = "length heap"
  note e0 = "1.prems"(2)
  have pos: "pos < ?n" using "1.prems"(1) by (simp add: hole_ok_def)
  have pairs: "\<And>i. 0 < i \<Longrightarrow> i < ?n \<Longrightarrow> i \<noteq> pos \<Longrightarrow> (i - 1) div 2 \<noteq> pos
          \<Longrightarrow> f (heap ! ((i - 1) div 2)) \<le> f (heap ! i)"
    using "1.prems"(1) by (simp add: hole_ok_def)
  have gp: "\<And>c. 0 < c \<Longrightarrow> c < ?n \<Longrightarrow> (c - 1) div 2 = pos \<Longrightarrow> 0 < pos
          \<Longrightarrow> f (heap ! ((pos - 1) div 2)) \<le> f (heap ! c)"
    using "1.prems"(1) by (simp add: hole_ok_def)
  show ?case
  proof (cases "2 * pos + 1 < endpos")
    case False
    then have "siftup_loop heap endpos pos = (heap, pos)"
      by (subst siftup_loop.simps) (simp add: Let_def)
    then have "heap' = heap" "pos' = pos" using "1.prems"(3) by simp_all
    then show ?thesis using "1.prems"(1) False e0 by simp
  next
    case True
    define cp where "cp = (if 2 * pos + 1 + 1 < endpos
          \<and> \<not> node_lt (heap ! (2 * pos + 1)) (heap ! (2 * pos + 1 + 1))
        then 2 * pos + 1 + 1 else 2 * pos + 1)"
    have cpn: "cp < ?n" using True e0 by (simp add: cp_def)
    have cpc: "cp = 2 * pos + 1 \<or> cp = 2 * pos + 2" by (simp add: cp_def)
    then have cpp: "(cp - 1) div 2 = pos" "0 < cp" "pos < cp" by auto
    have small: "f (heap ! cp) \<le> f (heap ! c)"
      if "0 < c" "c < ?n" "(c - 1) div 2 = pos" for c
    proof -
      from child_cases[OF that(1,3)] consider "c = 2 * pos + 1" | "c = 2 * pos + 2" by blast
      then show ?thesis
      proof cases
        case 1
        show ?thesis
        proof (cases "cp = c")
          case True
          then show ?thesis by simp
        next
          case False
          then have "cp = 2 * pos + 2" using cpc 1 by simp
          then have "\<not> node_lt (heap ! (2 * pos + 1)) (heap ! (2 * pos + 2))"
            unfolding cp_def by (auto split: if_splits)
          then show ?thesis using 1 \<open>cp = 2 * pos + 2\<close> by (simp add: node_lt_def)
        qed
      next
        case 2
        show ?thesis
        proof (cases "cp = c")
          case True
          then show ?thesis by simp
        next
          case False
          then have c1: "cp = 2 * pos + 1" using cpc 2 by simp
          have "2 * pos + 1 + 1 < endpos" using that(2) 2 e0 by simp
          then have "node_lt (heap ! (2 * pos + 1)) (heap ! (2 * pos + 1 + 1))"
            using c1 unfolding cp_def by (auto split: if_splits)
          then show ?thesis using 2 c1 by (simp add: node_lt_def)
        qed
      qed
    qed
    let ?h = "heap[pos := heap ! cp]"
    have nth: "\<And>i. i < ?n \<Longrightarrow> ?h ! i = (if i = pos then heap ! cp else heap ! i)"
      by (simp add: nth_list_update)
    have e: "siftup_loop heap endpos pos = siftup_loop ?h endpos cp"
      using True by (subst siftup_loop.simps) (simp add: Let_def cp_def)
    have r: "siftup_loop ?h endpos cp = (heap', pos')" using "1.prems"(3) e by simp
    have hole: "hole_ok ?h cp"
      unfolding hole_ok_def
    proof (intro conjI allI impI)
      show "cp < length ?h" using cpn by simp
    next
      fix i assume i: "0 < i \<and> i < length ?h \<and> i \<noteq> cp \<and> (i - 1) div 2 \<noteq> cp"
      then have il: "i < ?n" by simp
      then have ipl: "(i - 1) div 2 < ?n" by (rule parent_less)
      show "f (?h ! ((i - 1) div 2)) \<le> f (?h ! i)"
      proof (cases "i = pos")
        case True
        have "(i - 1) div 2 \<noteq> pos" using True i parent_less_self[of pos] by simp
        moreover have "f (heap ! ((pos - 1) div 2)) \<le> f (heap ! cp)"
          using gp[of cp] cpp cpn True i by simp
        ultimately show ?thesis using True ipl pos by (simp add: nth)
      next
        case ni: False
        show ?thesis
        proof (cases "(i - 1) div 2 = pos")
          case True
          then show ?thesis using small[of i] i il ni by (simp add: nth ipl)
        next
          case False
          then show ?thesis using pairs[of i] i il ni by (simp add: nth ipl)
        qed
      qed
    next
      fix c assume c: "0 < c \<and> c < length ?h \<and> (c - 1) div 2 = cp \<and> 0 < cp"
      then have cl: "c < ?n" by simp
      have cne: "c \<noteq> pos" using c cpp(3) parent_less_self[of c] by simp
      have "f (heap ! cp) \<le> f (heap ! c)"
        using pairs[of c] c cl cne cpp(3) by simp
      then show "f (?h ! ((cp - 1) div 2)) \<le> f (?h ! c)"
        using cpp(1) cne cl pos by (simp add: nth)
    qed
    have IH: "hole_ok heap' pos' \<and> length heap' = length ?h \<and> \<not> 2 * pos' + 1 < length ?h
       \<and> (\<forall>x. mset (heap'[pos' := x]) = mset (?h[cp := x]))"
      using "1.IH"[OF refl True refl refl, folded cp_def, OF hole _ r] e0 by simp
    have "mset (?h[cp := x]) = mset (heap[pos := x])" for x
      using mset_move_hole[OF pos cpn] .
    then show ?thesis using IH by simp
  qed
qed

lemma hole_ok_update:
  "hole_ok xs pos \<Longrightarrow> \<not> 2 * pos + 1 < length xs \<Longrightarrow> hole_ok (xs[pos := x]) pos"
  unfolding hole_ok_def
proof (intro conjI allI impI)
  assume a: "pos < length xs \<and>
    (\<forall>i. 0 < i \<and> i < length xs \<and> i \<noteq> pos \<and> (i - 1) div 2 \<noteq> pos \<longrightarrow>
         f (xs ! ((i - 1) div 2)) \<le> f (xs ! i)) \<and>
    (\<forall>c. 0 < c \<and> c < length xs \<and> (c - 1) div 2 = pos \<and> 0 < pos \<longrightarrow>
         f (xs ! ((pos - 1) div 2)) \<le> f (xs ! c))" and leaf: "\<not> 2 * pos + 1 < length xs"
  show "pos < length (xs[pos := x])" using a by simp
  {
    fix i assume i: "0 < i \<and> i < length (xs[pos := x]) \<and> i \<noteq> pos \<and> (i - 1) div 2 \<noteq> pos"
    then have "f (xs ! ((i - 1) div 2)) \<le> f (xs ! i)" using a by simp
    then show "f (xs[pos := x] ! ((i - 1) div 2)) \<le> f (xs[pos := x] ! i)"
      using i by simp
  }
  {
    fix c assume c: "0 < c \<and> c < length (xs[pos := x]) \<and> (c - 1) div 2 = pos \<and> 0 < pos"
    then have "c = 2 * pos + 1 \<or> c = 2 * pos + 2" using child_cases[of c pos] by simp
    then have False using c leaf by auto
    then show "f (xs[pos := x] ! ((pos - 1) div 2)) \<le> f (xs[pos := x] ! c)" ..
  }
qed

lemma heappop_heap:
  assumes ne: "heap \<noteq> []" and ok: "heap_ok heap" and pop: "heappop heap = (n, heap')"
  shows "heap_ok heap' \<and> mset heap = add_mset n (mset heap') \<and> (\<forall>m\<in>set heap. f n \<le> f m)"
proof -
  have n0: "n = heap ! 0"
  proof (cases "butlast heap = []")
    case True
    then have "n = last heap" using pop by (simp add: heappop_def Let_def)
    moreover have "length heap = 1" using True ne by (cases heap) (auto split: if_splits)
    ultimately show ?thesis using ne by (simp add: last_conv_nth)
  next
    case False
    then have "n = butlast heap ! 0" using pop by (simp add: heappop_def Let_def)
    moreover have "0 < length (butlast heap)" using False by (cases "butlast heap") simp_all
    ultimately show ?thesis by (simp add: nth_butlast)
  qed
  have mn: "\<forall>m\<in>set heap. f n \<le> f m"
    using heap_ok_root_min[OF ok] by (auto simp: n0 in_set_conv_nth)
  show ?thesis
  proof (cases "butlast heap = []")
    case True
    then have h': "heap' = []" using pop by (simp add: heappop_def Let_def)
    have "length heap = 1" using True ne by (cases heap) (auto split: if_splits)
    then have "heap = [n]" using n0 by (cases heap) auto
    then show ?thesis using mn h' by (simp add: heap_ok_def)
  next
    case False
    let ?xs = "butlast heap"
    let ?l = "last heap"
    let ?h0 = "?xs[0 := ?l]"
    have xl: "0 < length ?xs" using False by (cases ?xs) simp_all
    have h': "heap' = siftup ?h0 0" using pop False by (simp add: heappop_def Let_def)
    obtain h1 pos1 where r: "siftup_loop ?h0 (length ?h0) 0 = (h1, pos1)"
      by (cases "siftup_loop ?h0 (length ?h0) 0")
    have okx: "heap_ok ?xs" using ok by (rule heap_ok_butlast)
    have hole0: "hole_ok ?h0 0"
      unfolding hole_ok_def
    proof (intro conjI allI impI)
      show "0 < length ?h0" using xl by simp
    next
      fix i assume i: "0 < i \<and> i < length ?h0 \<and> i \<noteq> 0 \<and> (i - 1) div 2 \<noteq> 0"
      then have "f (?xs ! ((i - 1) div 2)) \<le> f (?xs ! i)" using okx by (simp add: heap_ok_def)
      then show "f (?h0 ! ((i - 1) div 2)) \<le> f (?h0 ! i)" using i by simp
    next
      fix c assume "0 < c \<and> c < length ?h0 \<and> (c - 1) div 2 = 0 \<and> (0::nat) < 0"
      then have False by simp
      then show "f (?h0 ! ((0 - 1) div 2)) \<le> f (?h0 ! c)" ..
    qed
    from siftup_loop_hole[OF hole0 refl r]
    have h1: "hole_ok h1 pos1" "length h1 = length ?h0" "\<not> 2 * pos1 + 1 < length ?h0"
      and ms: "\<And>x. mset (h1[pos1 := x]) = mset (?h0[0 := x])" by simp_all
    have leaf: "\<not> 2 * pos1 + 1 < length h1" using h1(2,3) by simp
    have p1: "pos1 < length h1" using h1(1) by (simp add: hole_ok_def)
    have l0: "?h0 ! 0 = ?l" using xl by simp
    have r': "siftup_loop ?h0 (length heap - Suc 0) 0 = (h1, pos1)" using r by simp
    have h'': "heap' = siftdown_loop (h1[pos1 := ?l]) 0 ?l pos1"
      using p1 by (simp add: h' siftup_def Let_def r' l0 siftdown_def)
    have hole1: "hole_ok (h1[pos1 := ?l]) pos1" using hole_ok_update[OF h1(1) leaf] .
    have nochild: "\<forall>c. 0 < c \<and> c < length (h1[pos1 := ?l]) \<and> (c - 1) div 2 = pos1
        \<longrightarrow> f ?l \<le> f (h1[pos1 := ?l] ! c)"
    proof (intro allI impI)
      fix c assume c: "0 < c \<and> c < length (h1[pos1 := ?l]) \<and> (c - 1) div 2 = pos1"
      then have "c = 2 * pos1 + 1 \<or> c = 2 * pos1 + 2" using child_cases[of c pos1] by simp
      then have False using c leaf by auto
      then show "f ?l \<le> f (h1[pos1 := ?l] ! c)" ..
    qed
    have ok': "heap_ok heap'"
      unfolding h'' by (rule siftdown_loop_heap_ok[OF hole1 nochild])
    have "mset heap' = mset (h1[pos1 := ?l, pos1 := ?l])"
      unfolding h'' using p1 by (simp add: mset_siftdown_loop)
    also have "\<dots> = mset (?h0[0 := ?l])" using ms[of ?l] by simp
    also have "\<dots> = mset ?h0" by simp
    finally have m1: "mset heap' = mset ?h0" .
    have "mset heap = mset (?xs @ [?l])" using ne by simp
    also have "\<dots> = add_mset ?l (mset ?xs)" by simp
    also have "mset ?xs = add_mset (?xs ! 0) (mset ?xs - {#?xs ! 0#})"
      using xl by simp
    finally have "mset heap = add_mset ?l (add_mset (?xs ! 0) (mset ?xs - {#?xs ! 0#}))" .
    moreover have "mset ?h0 = add_mset ?l (mset ?xs - {#?xs ! 0#})"
      using xl by (simp add: mset_update)
    moreover have "?xs ! 0 = n" using n0 xl by (simp add: nth_butlast)
    ultimately have "mset heap = add_mset n (mset heap')" using m1 by simp
    then show ?thesis using ok' mn by simp
  qed
qed

lemma replace_loop_id:
  "\<forall>el\<in>set frontier. \<not> (node_eq el child \<and> f child < f el)
   \<Longrightarrow> replace_loop frontier child i = frontier"
proof (induction frontier child i rule: replace_loop.induct)
  case (1 frontier child i)
  show ?case
  proof (cases "i < length frontier")
    case True
    then have "frontier ! i \<in> set frontier" by simp
    then have n: "\<not> (node_eq (frontier ! i) child \<and> f child < f (frontier ! i))"
      using "1.prems" by blast
    have "replace_loop frontier child i = replace_loop frontier child (i + 1)"
      using True n by (subst replace_loop.simps) (auto simp: Let_def)
    also have "\<dots> = frontier" using "1.IH"(2)[OF True refl n "1.prems"] .
    finally show ?thesis .
  next
    case False
    then show ?thesis by (subst replace_loop.simps) simp
  qed
qed

lemma consistent_path:
  assumes "consistent p heuristic"
  shows "legal p s bs \<Longrightarrow> h p heuristic s \<le> int (length bs) + h p heuristic (foldl (result p) s bs)"
proof (induction bs arbitrary: s)
  case Nil
  then show ?case by simp
next
  case (Cons a bs)
  have a: "a \<in> set (actions p s)" and r: "legal p (result p s a) bs" using Cons.prems by simp_all
  have "h p heuristic s \<le> 1 + h p heuristic (result p s a)"
    using assms a unfolding consistent_def by blast
  also have "\<dots> \<le> 1 + (int (length bs) + h p heuristic (foldl (result p) (result p s a) bs))"
    using Cons.IH[OF r] by simp
  finally show ?case by simp
qed

lemma frontier_on_path:
  assumes cl: "closed_on p explored frontier explored" and st: "start p \<in> explored"
  shows "k \<le> 11 \<Longrightarrow> reach_in p k s \<Longrightarrow> s \<notin> explored
     \<Longrightarrow> \<exists>m\<in>set frontier. \<exists>j\<le>k. depth m \<le> j
           \<and> (\<exists>bs. length bs = k - j \<and> legal p (state m) bs \<and> foldl (result p) (state m) bs = s)"
proof (induction k arbitrary: s)
  case 0
  then have "s = start p" by (simp add: reach_in_0)
  then show ?case using st "0.prems"(3) by simp
next
  case (Suc k)
  from Suc.prems(2) obtain t a where t: "reach_in p k t" "a \<in> set (actions p t)"
    "s = result p t a" by (auto simp: reach_in_Suc)
  have k10: "k \<le> 10" using Suc.prems(1) by simp
  show ?case
  proof (cases "t \<in> explored")
    case True
    with cl k10 t(1,2) have "result p t a \<in> explored
        \<or> (\<exists>m\<in>set frontier. state m = result p t a \<and> depth m \<le> k + 1)"
      unfolding closed_on_def by blast
    then obtain m where m: "m \<in> set frontier" "state m = s" "depth m \<le> Suc k"
      using Suc.prems(3) t(3) by auto
    have "length [] = Suc k - Suc k \<and> legal p (state m) [] \<and> foldl (result p) (state m) [] = s"
      using m(2) by simp
    then show ?thesis using m(1,3) by blast
  next
    case False
    from Suc.IH[OF _ t(1) False] k10
    obtain m j bs where m: "m \<in> set frontier" "j \<le> k" "depth m \<le> j" "length bs = k - j"
      "legal p (state m) bs" "foldl (result p) (state m) bs = t" by auto
    have "length (bs @ [a]) = Suc k - j" using m(2,4) by simp
    moreover have "legal p (state m) (bs @ [a])" using m(5,6) t(2) by (simp add: legal_append)
    moreover have "foldl (result p) (state m) (bs @ [a]) = s" using m(6) t(3) by simp
    ultimately have "\<exists>bs. length bs = Suc k - j \<and> legal p (state m) bs
        \<and> foldl (result p) (state m) bs = s" by blast
    moreover have "j \<le> Suc k" using m(2) by simp
    ultimately show ?thesis using m(1,3) by blast
  qed
qed

lemma pop_minimal:
  assumes inv: "astar_opt_inv p heuristic frontier explored" and con: "consistent p heuristic"
    and n: "n \<in> set frontier" and mn: "\<forall>m\<in>set frontier. f n \<le> f m"
    and r: "reach_in p k (state n)"
  shows "depth n \<le> k"
proof (rule ccontr)
  assume "\<not> depth n \<le> k"
  then have lt: "k < depth n" by simp
  have base: "astar_base p heuristic frontier explored"
    and cl: "closed_on p explored frontier explored"
    using inv by (simp_all add: astar_opt_inv_def)
  have gn: "good_node p heuristic n" using base n by (simp add: astar_base_def)
  then have k11: "k \<le> 11" using lt by (simp add: good_node_def)
  have ne: "state n \<notin> explored" using base n by (auto simp: astar_base_def)
  have st: "start p \<in> explored" using inv by (simp add: astar_opt_inv_def)
  from frontier_on_path[OF cl st k11 r ne]
  obtain m j bs where m: "m \<in> set frontier" "j \<le> k" "depth m \<le> j" "length bs = k - j"
    "legal p (state m) bs" "foldl (result p) (state m) bs = state n" by blast
  have gm: "good_node p heuristic m" using base m(1) by (simp add: astar_base_def)
  have "h p heuristic (state m) \<le> int (k - j) + h p heuristic (state n)"
    using consistent_path[OF con m(5)] m(4,6) by simp
  then have "f m \<le> int (depth m) + h p heuristic (start p) + int (k - j) + h p heuristic (state n)"
    using gm by (simp add: good_node_def)
  also have "\<dots> \<le> int k + h p heuristic (start p) + h p heuristic (state n)"
    using m(2,3) by simp
  also have "\<dots> < f n" using gn lt by (simp add: good_node_def)
  finally show False using mn m(1) by force
qed

lemma distinct_map_mset: "mset xs = mset ys \<Longrightarrow> distinct (map g xs) = distinct (map g ys)"
  by (metis mset_map mset_eq_imp_distinct_iff)

lemma set_heappush_eq: "set (heappush heap item) = insert item (set heap)"
proof -
  have "set (heappush heap item) = set_mset (mset (heappush heap item))" by simp
  also have "\<dots> = insert item (set heap)" unfolding mset_heappush by simp
  finally show ?thesis .
qed

lemma astar_base_heappush:
  assumes b: "astar_base p heuristic fr E" and g: "good_node p heuristic c"
    and nf: "state c \<notin> state ` set fr" and ne: "state c \<notin> E"
  shows "astar_base p heuristic (heappush fr c) E"
proof -
  have "distinct (map state (heappush fr c)) = distinct (map state (c # fr))"
    by (rule distinct_map_mset) (simp add: mset_heappush)
  then have "distinct (map state (heappush fr c))" using b nf by (simp add: astar_base_def)
  moreover have "heap_ok (heappush fr c)" using b by (simp add: astar_base_def heappush_heap_ok)
  ultimately show ?thesis using b g ne by (auto simp: astar_base_def set_heappush_eq)
qed

lemma astar_expand_opt:
  assumes pn: "path_node p n" and d: "depth n \<le> 10"
    and pc: "path_cost n = int (depth n) + h p heuristic (start p)"
  shows "astar_base p heuristic fr E \<Longrightarrow> set as \<subseteq> set (actions p (state n))
     \<Longrightarrow> \<not> astar_expand_replaces p heuristic n as fr E
     \<Longrightarrow> astar_base p heuristic (astar_expand p heuristic n as fr E) E
       \<and> set fr \<subseteq> set (astar_expand p heuristic n as fr E)
       \<and> (\<forall>a\<in>set as. result p (state n) a \<in> E
            \<or> (\<exists>m\<in>set (astar_expand p heuristic n as fr E).
                  state m = result p (state n) a \<and> depth m \<le> depth n + 1))"
proof (induction as arbitrary: fr)
  case Nil
  then show ?case by simp
next
  case (Cons a as)
  define c where "c = set_f (child_node n p a)
      (path_cost (child_node n p a) + h p heuristic (state (child_node n p a)))"
  have a: "a \<in> set (actions p (state n))" and as: "set as \<subseteq> set (actions p (state n))"
    using Cons.prems(2) by simp_all
  have cs: "state c = result p (state n) a" "depth c = depth n + 1"
    "path_cost c = path_cost n + 1" "f c = path_cost n + 1 + h p heuristic (result p (state n) a)"
    by (simp_all add: c_def)
  have pc': "path_node p c" unfolding c_def by (rule path_node_child[OF pn a])
  have step: "astar_expand p heuristic n (a # as) fr E =
     (if state c \<notin> E \<and> \<not> in_frontier c fr then
        astar_expand p heuristic n as (heappush fr c) E
      else if in_frontier c fr then astar_expand p heuristic n as (replace_loop fr c 0) E
      else astar_expand p heuristic n as fr E)"
    unfolding c_def by (simp only: astar_expand.simps Let_def)
  have rstep: "astar_expand_replaces p heuristic n (a # as) fr E =
     (if state c \<notin> E \<and> \<not> in_frontier c fr then
        astar_expand_replaces p heuristic n as (heappush fr c) E
      else if in_frontier c fr then
        (\<exists>el\<in>set fr. node_eq el c \<and> f c < f el)
        \<or> astar_expand_replaces p heuristic n as (replace_loop fr c 0) E
      else astar_expand_replaces p heuristic n as fr E)"
    unfolding c_def by (simp only: astar_expand_replaces.simps Let_def)
  note nrep = Cons.prems(3)[unfolded rstep]
  have gc: "good_node p heuristic c"
    using pc' cs pc d by (simp add: good_node_def)
  show ?case
  proof (cases "state c \<notin> E \<and> \<not> in_frontier c fr")
    case True
    then have nf: "state c \<notin> state ` set fr" and ne: "state c \<notin> E"
      by (simp_all add: in_frontier_iff)
    have e: "astar_expand p heuristic n (a # as) fr E
        = astar_expand p heuristic n as (heappush fr c) E"
      using True by (subst step) simp
    have r: "\<not> astar_expand_replaces p heuristic n as (heappush fr c) E"
      using nrep True by simp
    have b1: "astar_base p heuristic (heappush fr c) E"
      using astar_base_heappush[OF Cons.prems(1) gc nf ne] .
    from Cons.IH[OF b1 as r]
    have IH: "astar_base p heuristic (astar_expand p heuristic n as (heappush fr c) E) E"
      "set (heappush fr c) \<subseteq> set (astar_expand p heuristic n as (heappush fr c) E)"
      "\<forall>a\<in>set as. result p (state n) a \<in> E
            \<or> (\<exists>m\<in>set (astar_expand p heuristic n as (heappush fr c) E).
                  state m = result p (state n) a \<and> depth m \<le> depth n + 1)"
      by simp_all
    have cin: "c \<in> set (astar_expand p heuristic n as (heappush fr c) E)"
      using IH(2) by (auto simp: set_heappush_eq)
    have "\<exists>m\<in>set (astar_expand p heuristic n as (heappush fr c) E).
        state m = result p (state n) a \<and> depth m \<le> depth n + 1"
      using cin cs by (intro bexI[of _ c]) simp_all
    moreover have "set fr \<subseteq> set (astar_expand p heuristic n as (heappush fr c) E)"
      using IH(2) by (auto simp: set_heappush_eq)
    ultimately show ?thesis unfolding e using IH(1,3) by simp
  next
    case nt: False
    show ?thesis
    proof (cases "in_frontier c fr")
      case True
      have nr: "\<forall>el\<in>set fr. \<not> (node_eq el c \<and> f c < f el)"
        and r: "\<not> astar_expand_replaces p heuristic n as (replace_loop fr c 0) E"
        using nrep nt True by simp_all
      have id: "replace_loop fr c 0 = fr" using nr by (rule replace_loop_id)
      have e: "astar_expand p heuristic n (a # as) fr E = astar_expand p heuristic n as fr E"
        using nt True by (subst step) (simp add: id)
      from Cons.IH[OF Cons.prems(1) as] r id
      have IH: "astar_base p heuristic (astar_expand p heuristic n as fr E) E"
        "set fr \<subseteq> set (astar_expand p heuristic n as fr E)"
        "\<forall>a\<in>set as. result p (state n) a \<in> E
            \<or> (\<exists>m\<in>set (astar_expand p heuristic n as fr E).
                  state m = result p (state n) a \<and> depth m \<le> depth n + 1)"
        by simp_all
      from True obtain el where el: "el \<in> set fr" "state el = state c"
        by (auto simp: in_frontier_def node_eq_def)
      have gel: "good_node p heuristic el" using Cons.prems(1) el(1) by (simp add: astar_base_def)
      have "f el \<le> f c" using nr el by (force simp: node_eq_def)
      then have "depth el \<le> depth n + 1"
        using gel gc el(2) cs by (simp add: good_node_def)
      then have "\<exists>m\<in>set (astar_expand p heuristic n as fr E).
          state m = result p (state n) a \<and> depth m \<le> depth n + 1"
        using el IH(2) cs(1) by (intro bexI[of _ el]) auto
      then show ?thesis unfolding e using IH by simp
    next
      case False
      then have inE: "state c \<in> E" using nt by simp
      have e: "astar_expand p heuristic n (a # as) fr E = astar_expand p heuristic n as fr E"
        using nt False by (subst step) simp
      have r: "\<not> astar_expand_replaces p heuristic n as fr E"
        using nrep nt False by simp
      from Cons.IH[OF Cons.prems(1) as r]
      have IH: "astar_base p heuristic (astar_expand p heuristic n as fr E) E"
        "set fr \<subseteq> set (astar_expand p heuristic n as fr E)"
        "\<forall>a\<in>set as. result p (state n) a \<in> E
            \<or> (\<exists>m\<in>set (astar_expand p heuristic n as fr E).
                  state m = result p (state n) a \<and> depth m \<le> depth n + 1)"
        by simp_all
      show ?thesis unfolding e using IH inE cs(1) by simp
    qed
  qed
qed

lemma astar_pop:
  assumes inv: "astar_opt_inv p heuristic frontier explored" and ne: "frontier \<noteq> []"
    and pop: "heappop frontier = (n, fr')"
  shows "set frontier = insert n (set fr')" and "\<forall>m\<in>set frontier. f n \<le> f m"
    and "astar_base p heuristic fr' (insert (state n) explored)"
    and "closed_on p explored fr' (insert (state n) explored)"
proof -
  have base: "astar_base p heuristic frontier explored"
    and cl: "closed_on p explored frontier explored"
    using inv by (simp_all add: astar_opt_inv_def)
  have ok: "heap_ok frontier" using base by (simp add: astar_base_def)
  from heappop_heap[OF ne ok pop] have ok': "heap_ok fr'"
    and ms: "mset frontier = add_mset n (mset fr')" and mn: "\<forall>m\<in>set frontier. f n \<le> f m"
    by simp_all
  have "set frontier = set_mset (mset frontier)" by simp
  also have "\<dots> = insert n (set fr')" unfolding ms by simp
  finally show st: "set frontier = insert n (set fr')" .
  show "\<forall>m\<in>set frontier. f n \<le> f m" by (rule mn)
  have "distinct (map state frontier) = distinct (map state (n # fr'))"
    by (rule distinct_map_mset) (simp add: ms)
  then have di: "state n \<notin> state ` set fr'" "distinct (map state fr')"
    using base by (simp_all add: astar_base_def)
  have dj: "state ` set fr' \<inter> explored = {}" using base st by (auto simp: astar_base_def)
  have gd: "\<forall>m\<in>set fr'. good_node p heuristic m" using base st by (simp add: astar_base_def)
  show "astar_base p heuristic fr' (insert (state n) explored)"
    unfolding astar_base_def using ok' gd di dj by auto
  show "closed_on p explored fr' (insert (state n) explored)"
    unfolding closed_on_def
  proof (intro ballI allI impI)
    fix t k a assume t: "t \<in> explored" "k \<le> 10" "reach_in p k t" "a \<in> set (actions p t)"
    with cl have "result p t a \<in> explored
        \<or> (\<exists>m\<in>set frontier. state m = result p t a \<and> depth m \<le> k + 1)"
      unfolding closed_on_def by blast
    then show "result p t a \<in> insert (state n) explored
        \<or> (\<exists>m\<in>set fr'. state m = result p t a \<and> depth m \<le> k + 1)"
      unfolding st by auto
  qed
qed

lemma closed_on_mono:
  "closed_on p T fr E \<Longrightarrow> set fr \<subseteq> set fr' \<Longrightarrow> closed_on p T fr' E"
  unfolding closed_on_def by blast

lemma closed_on_insert:
  "closed_on p T fr E \<Longrightarrow> closed_on p {t} fr E \<Longrightarrow> closed_on p (insert t T) fr E"
  unfolding closed_on_def by blast

lemma astar_loop_minimal:
  "astar_loop p heuristic frontier explored = Some r \<Longrightarrow>
   astar_loop_replaces p heuristic frontier explored = Some False \<Longrightarrow>
   consistent p heuristic \<Longrightarrow> astar_opt_inv p heuristic frontier explored \<Longrightarrow>
   r = Solution sol \<Longrightarrow>
   \<exists>n. sol = solution n \<and> path_node p n \<and> (\<forall>k. reach_in p k (state n) \<longrightarrow> depth n \<le> k)"
proof (induction arbitrary: sol rule: astar_loop.raw_induct[rotated 1, consumes 1])
  case (1 loop p heuristic frontier explored r)
  note flag = "1.prems"(1) and con = "1.prems"(2) and inv = "1.prems"(3) and rs = "1.prems"(4)
  show ?case
  proof (cases "frontier = []")
    case True
    then show ?thesis using "1.hyps" rs by simp
  next
    case False
    obtain n fr' where pop: "heappop frontier = (n, fr')"
      by (cases "heappop frontier")
    let ?E = "insert (state n) explored"
    note P = astar_pop[OF inv False pop]
    have nin: "n \<in> set frontier" using P(1) by simp
    have gn: "good_node p heuristic n"
      using inv nin by (simp add: astar_opt_inv_def astar_base_def)
    have mini: "\<And>k. reach_in p k (state n) \<Longrightarrow> depth n \<le> k"
      using pop_minimal[OF inv con nin P(2)] .
    have st: "start p \<in> ?E" using inv by (simp add: astar_opt_inv_def)
    show ?thesis
    proof (cases "is_goal_state p (state n)")
      case True
      then have "r = Solution (solution n)" using "1.hyps" False pop by simp
      then show ?thesis using rs gn mini by (auto simp: good_node_def)
    next
      case ng: False
      show ?thesis
      proof (cases "depth n \<le> 10")
        case True
        let ?fr = "astar_expand p heuristic n (actions p (state n)) fr' ?E"
        have l: "loop p heuristic ?fr ?E = Some r"
          using "1.hyps" False pop ng True by (simp add: Let_def)
        have fl: "(if astar_expand_replaces p heuristic n (actions p (state n)) fr' ?E
            then Some True else astar_loop_replaces p heuristic ?fr ?E) = Some False"
          using flag False pop ng True
          by (subst (asm) astar_loop_replaces.simps) (simp add: Let_def)
        then have nr: "\<not> astar_expand_replaces p heuristic n (actions p (state n)) fr' ?E"
          and fl': "astar_loop_replaces p heuristic ?fr ?E = Some False"
          by (simp_all split: if_splits)
        have pn: "path_node p n" and pc: "path_cost n = int (depth n) + h p heuristic (start p)"
          using gn by (simp_all add: good_node_def)
        from astar_expand_opt[OF pn True pc P(3) subset_refl nr]
        have X: "astar_base p heuristic ?fr ?E" "set fr' \<subseteq> set ?fr"
          "\<forall>a\<in>set (actions p (state n)). result p (state n) a \<in> ?E
            \<or> (\<exists>m\<in>set ?fr. state m = result p (state n) a \<and> depth m \<le> depth n + 1)"
          by simp_all
        have c1: "closed_on p explored ?fr ?E" using closed_on_mono[OF P(4) X(2)] .
        have c2: "closed_on p {state n} ?fr ?E"
          unfolding closed_on_def
        proof (intro ballI allI impI)
          fix t k a assume t: "t \<in> {state n}" "k \<le> 10" "reach_in p k t" "a \<in> set (actions p t)"
          then have tn: "t = state n" by simp
          have dk: "depth n \<le> k" using mini t(3) tn by simp
          from X(3) t(4) tn have "result p t a \<in> ?E
            \<or> (\<exists>m\<in>set ?fr. state m = result p t a \<and> depth m \<le> depth n + 1)" by simp
          then show "result p t a \<in> ?E
            \<or> (\<exists>m\<in>set ?fr. state m = result p t a \<and> depth m \<le> k + 1)"
            using dk by force
        qed
        have inv': "astar_opt_inv p heuristic ?fr ?E"
          unfolding astar_opt_inv_def using X(1) st closed_on_insert[OF c1 c2] by simp
        from "1.IH"[OF l fl' con inv' rs] show ?thesis .
      next
        case d: False
        have l: "loop p heuristic fr' ?E = Some r"
          using "1.hyps" False pop ng d by (simp add: Let_def)
        have fl': "astar_loop_replaces p heuristic fr' ?E = Some False"
          using flag False pop ng d
          by (subst (asm) astar_loop_replaces.simps) (simp add: Let_def)
        have c2: "closed_on p {state n} fr' ?E"
          unfolding closed_on_def
        proof (intro ballI allI impI)
          fix t k a assume t: "t \<in> {state n}" "k \<le> 10" "reach_in p k t" "a \<in> set (actions p t)"
          then have "depth n \<le> k" using mini by simp
          then have False using d t(2) by simp
          then show "result p t a \<in> ?E
            \<or> (\<exists>m\<in>set fr'. state m = result p t a \<and> depth m \<le> k + 1)" ..
        qed
        have inv': "astar_opt_inv p heuristic fr' ?E"
          unfolding astar_opt_inv_def using P(3) st closed_on_insert[OF P(4) c2] by simp
        from "1.IH"[OF l fl' con inv' rs] show ?thesis .
      qed
    qed
  qed
qed

lemma heappush_Nil: "heappush [] n = [n]"
  by (simp add: heappush_def siftdown_def siftdown_loop.simps)

lemma heappop_single: "heappop [n] = (n, [])"
  by (simp add: heappop_def)

lemma astar_search_minimal:
  assumes s: "astar_search p heuristic = Some (Solution path)"
    and fl: "astar_search_replaces p heuristic = Some False"
    and con: "consistent p heuristic"
  shows "\<exists>n. path = solution n \<and> path_node p n \<and> (\<forall>k. reach_in p k (state n) \<longrightarrow> depth n \<le> k)"
proof (cases "is_goal_state p (start p)")
  case True
  then have "path = solution (astar_root p heuristic)"
    using s by (simp add: astar_search_def Let_def)
  then show ?thesis using path_node_astar_root[of p heuristic] by auto
next
  case False
  let ?r = "astar_root p heuristic"
  let ?E = "{start p}"
  let ?fr = "astar_expand p heuristic ?r (actions p (start p)) [] ?E"
  have l0: "astar_loop p heuristic [?r] {} = Some (Solution path)"
    using s False by (simp add: astar_search_def Let_def heappush_Nil)
  then have l: "astar_loop p heuristic ?fr ?E = Some (Solution path)"
    using False by (subst (asm) astar_loop.simps) (simp add: heappop_single Let_def)
  have f0: "astar_loop_replaces p heuristic [?r] {} = Some False"
    using fl False by (simp add: astar_search_replaces_def Let_def heappush_Nil)
  have "astar_loop_replaces p heuristic [?r] {} =
      (if astar_expand_replaces p heuristic ?r (actions p (start p)) [] ?E
       then Some True else astar_loop_replaces p heuristic ?fr ?E)"
    using False by (subst astar_loop_replaces.simps) (simp add: heappop_single Let_def)
  with f0 have "(if astar_expand_replaces p heuristic ?r (actions p (start p)) [] ?E
       then Some True else astar_loop_replaces p heuristic ?fr ?E) = Some False" by simp
  then have nr: "\<not> astar_expand_replaces p heuristic ?r (actions p (start p)) [] ?E"
    and fl': "astar_loop_replaces p heuristic ?fr ?E = Some False"
    by (simp_all split: if_splits)
  have b0: "astar_base p heuristic [] ?E" by (simp add: astar_base_def heap_ok_def)
  have sub: "set (actions p (start p)) \<subseteq> set (actions p (state ?r))" by simp
  have "astar_base p heuristic (astar_expand p heuristic ?r (actions p (start p)) [] ?E) ?E
       \<and> set [] \<subseteq> set (astar_expand p heuristic ?r (actions p (start p)) [] ?E)
       \<and> (\<forall>a\<in>set (actions p (start p)). result p (state ?r) a \<in> ?E
            \<or> (\<exists>m\<in>set (astar_expand p heuristic ?r (actions p (start p)) [] ?E).
                  state m = result p (state ?r) a \<and> depth m \<le> depth ?r + 1))"
    by (rule astar_expand_opt[OF path_node_astar_root _ _ b0 sub nr]) simp_all
  then have X: "astar_base p heuristic ?fr ?E"
    "\<forall>a\<in>set (actions p (start p)). result p (start p) a \<in> ?E
            \<or> (\<exists>m\<in>set ?fr. state m = result p (start p) a \<and> depth m \<le> 1)"
    by simp_all
  have cl: "closed_on p ?E ?fr ?E"
    unfolding closed_on_def
  proof (intro ballI allI impI)
    fix t k a assume t: "t \<in> ?E" "k \<le> 10" "reach_in p k t" "a \<in> set (actions p t)"
    then have "result p t a \<in> ?E
            \<or> (\<exists>m\<in>set ?fr. state m = result p t a \<and> depth m \<le> 1)" using X(2) by simp
    then show "result p t a \<in> ?E
            \<or> (\<exists>m\<in>set ?fr. state m = result p t a \<and> depth m \<le> k + 1)" by force
  qed
  have inv: "astar_opt_inv p heuristic ?fr ?E"
    unfolding astar_opt_inv_def using X(1) cl by simp
  from astar_loop_minimal[OF l fl' con inv refl] show ?thesis .
qed

lemma detour_default_consistent: "consistent detour_problem None"
  unfolding consistent_def
proof (intro conjI allI impI)
  show "h detour_problem None (goal detour_problem) = 0"
    by (simp add: h_def detour_problem_def)
next
  fix s :: "nat list" and a :: nat
  assume "a \<in> set (actions detour_problem s)"
  then have "length s = 1" by (auto simp: detour_problem_def split: if_splits)
  then obtain x where s: "s = [x]" by (cases s) auto
  have "h detour_problem None s \<le> 1" unfolding s by (simp add: h_def)
  moreover have "0 \<le> h detour_problem None (result detour_problem s a)"
    unfolding h_def by (auto intro!: sum_list_nonneg)
  ultimately show "h detour_problem None s \<le> 1 + h detour_problem None (result detour_problem s a)"
    by simp
qed

text \<open>
  Claim C1, as the code has it. Whenever \<^verbatim>\<open>astar_search\<close> returns a path, for any
  heuristic, the path's actions lead from the start state to the goal state and there
  are at most eleven of them. If moreover the heuristic is consistent and the run replaces
  no frontier entry, no sequence of legal actions from the start state to the goal state
  is shorter than the returned path. With a heuristic that is only admissible the path
  need not be a shortest one, see the counterexample below.
\<close>

theorem astar_search_sound_and_minimal:
  assumes "astar_search p heuristic = Some (Solution path)"
  shows "legal p (start p) (path_actions path)
       \<and> is_goal_state p (foldl (result p) (start p) (path_actions path))
       \<and> length (path_actions path) \<le> 11
       \<and> (consistent p heuristic \<and> astar_search_replaces p heuristic = Some False \<longrightarrow>
            (\<forall>as. legal p (start p) as \<and> is_goal_state p (foldl (result p) (start p) as)
               \<longrightarrow> length (path_actions path) \<le> length as))"
proof -
  from astar_search_path[OF assms]
  obtain n where n: "path = solution n" "path_node p n" "depth n \<le> 11"
    "is_goal_state p (state n)" by blast
  have sound: "legal p (start p) (path_actions path)
       \<and> is_goal_state p (foldl (result p) (start p) (path_actions path))
       \<and> length (path_actions path) \<le> 11"
    using path_node_solution[OF n(2)] n by simp
  have "length (path_actions path) \<le> length as"
    if c: "consistent p heuristic" and fl: "astar_search_replaces p heuristic = Some False"
      and l: "legal p (start p) as" and g: "is_goal_state p (foldl (result p) (start p) as)"
    for as
  proof -
    from astar_search_minimal[OF assms fl c]
    obtain m where m: "path = solution m" "path_node p m"
      "\<forall>k. reach_in p k (state m) \<longrightarrow> depth m \<le> k" by blast
    have len: "length (path_actions path) = depth m"
      and st: "foldl (result p) (start p) (path_actions path) = state m"
      using path_node_solution[OF m(2)] m(1) by simp_all
    have "state m = goal p" using sound st by (simp add: is_goal_state_def)
    then have "foldl (result p) (start p) as = state m" using g by (simp add: is_goal_state_def)
    then have "reach_in p (length as) (state m)" using l unfolding reach_in_def by blast
    then show ?thesis using m(3) len by simp
  qed
  then show ?thesis using sound by blast
qed

theorem astar_search_sound_and_minimal_witness:
  "solution_actions (astar_search detour_problem None) = Some [1, 4, 5, 6]
   \<and> consistent detour_problem None
   \<and> astar_search_replaces detour_problem None = Some False
   \<and> legal detour_problem (start detour_problem) [2, 3, 4, 5, 6]
   \<and> is_goal_state detour_problem
        (foldl (result detour_problem) (start detour_problem) [2, 3, 4, 5, 6])
   \<and> legal detour_problem (start detour_problem) [1, 4, 5, 6]
   \<and> is_goal_state detour_problem
        (foldl (result detour_problem) (start detour_problem) [1, 4, 5, 6])
   \<and> length [1, 4, 5, 6 :: nat] \<le> 11
   \<and> length [1, 4, 5, 6 :: nat] \<le> length [2, 3, 4, 5, 6 :: nat]"
proof -
  have e: "solution_actions (astar_search detour_problem None) = Some [1, 4, 5, 6]"
    by code_simp
  have fl: "astar_search_replaces detour_problem None = Some False" by code_simp
  have l: "legal detour_problem (start detour_problem) [2, 3, 4, 5, 6]" by code_simp
  have g: "is_goal_state detour_problem
        (foldl (result detour_problem) (start detour_problem) [2, 3, 4, 5, 6])" by code_simp
  from e obtain path where p: "astar_search detour_problem None = Some (Solution path)"
    "path_actions path = [1, 4, 5, 6]"
    by (auto simp: solution_actions_def split: option.splits search_result.splits)
  from astar_search_sound_and_minimal[OF p(1)] detour_default_consistent fl l g
  have "legal detour_problem (start detour_problem) (path_actions path)
       \<and> is_goal_state detour_problem
           (foldl (result detour_problem) (start detour_problem) (path_actions path))
       \<and> length (path_actions path) \<le> 11
       \<and> length (path_actions path) \<le> length [2, 3, 4, 5, 6 :: nat]"
    by blast
  then show ?thesis using e fl l g detour_default_consistent unfolding p(2) by simp
qed

lemma detour_admissible: "admissible detour_problem (Some detour_h)"
  unfolding admissible_def
proof (intro allI impI)
  fix s :: "nat list" and as :: "nat list"
  assume a: "legal detour_problem s as
     \<and> is_goal_state detour_problem (foldl (result detour_problem) s as)"
  have hs: "h detour_problem (Some detour_h) s = detour_h s [6]"
    by (simp add: h_def detour_problem_def)
  consider "s = [1]" | "s = [5]" | "s \<noteq> [1] \<and> s \<noteq> [5]" by blast
  then show "h detour_problem (Some detour_h) s \<le> int (length as)"
  proof cases
    case 1
    have "3 \<le> length as"
    proof (rule ccontr)
      assume "\<not> 3 \<le> length as"
      then consider "as = []" | "\<exists>a. as = [a]" | "\<exists>a b. as = [a, b]"
        by (cases as; cases "tl as"; cases "tl (tl as)") auto
      then show False
        using a 1 by cases (auto simp: detour_problem_def is_goal_state_def)
    qed
    moreover have "h detour_problem (Some detour_h) s = 3"
      unfolding hs by (simp add: detour_h_def 1)
    ultimately show ?thesis by simp
  next
    case 2
    have "as \<noteq> []" using a 2 by (auto simp: detour_problem_def is_goal_state_def)
    then have "1 \<le> length as" by (cases as) auto
    moreover have "h detour_problem (Some detour_h) s = 1"
      unfolding hs by (simp add: detour_h_def 2)
    ultimately show ?thesis by simp
  next
    case 3
    then have "h detour_problem (Some detour_h) s = 0"
      unfolding hs by (simp add: detour_h_def)
    then show ?thesis by simp
  qed
qed

text \<open>
  Claim C1 fails as stated: on the test input the heuristic is admissible, yet
  \<^verbatim>\<open>astar_search\<close> returns a path of five actions while four actions reach the goal. The
  state \<open>(4)\<close> is expanded first along the longer way, whose states have heuristic value
  0, enters the explored set, and is then ignored when the shorter way reaches it.
\<close>

theorem astar_search_not_minimal_counterexample:
  "admissible detour_problem (Some detour_h)
   \<and> solution_actions (astar_search detour_problem (Some detour_h)) = Some [2, 3, 4, 5, 6]
   \<and> legal detour_problem (start detour_problem) [1, 4, 5, 6]
   \<and> is_goal_state detour_problem
        (foldl (result detour_problem) (start detour_problem) [1, 4, 5, 6])
   \<and> length [1, 4, 5, 6 :: nat] < length [2, 3, 4, 5, 6 :: nat]"
proof -
  have "solution_actions (astar_search detour_problem (Some detour_h)) = Some [2, 3, 4, 5, 6]"
    by code_simp
  moreover have "legal detour_problem (start detour_problem) [1, 4, 5, 6]" by code_simp
  moreover have "is_goal_state detour_problem
        (foldl (result detour_problem) (start detour_problem) [1, 4, 5, 6])" by code_simp
  ultimately show ?thesis using detour_admissible by simp
qed

lemma consistent_admissible:
  assumes "consistent p heuristic"
  shows "admissible p heuristic"
  unfolding admissible_def
proof (intro allI impI)
  fix s as
  assume "legal p s as \<and> is_goal_state p (foldl (result p) s as)"
  then show "h p heuristic s \<le> int (length as)"
  proof (induction as arbitrary: s)
    case Nil
    then have "s = goal p" by (simp add: is_goal_state_def)
    then show ?case using assms by (simp add: consistent_def)
  next
    case (Cons a as)
    have a: "a \<in> set (actions p s)" and r: "legal p (result p s a) as
       \<and> is_goal_state p (foldl (result p) (result p s a) as)"
      using Cons.prems by simp_all
    have "h p heuristic s \<le> 1 + h p heuristic (result p s a)"
      using assms a unfolding consistent_def by blast
    also have "\<dots> \<le> 1 + int (length as)" using Cons.IH[OF r] by simp
    finally show ?case by simp
  qed
qed

lemma replace_consistent: "consistent replace_problem (Some replace_h)"
  unfolding consistent_def
proof (intro conjI allI impI)
  show "h replace_problem (Some replace_h) (goal replace_problem) = 0"
    by (simp add: h_def replace_problem_def replace_h_def)
next
  fix s :: "nat list" and a :: nat
  assume "a \<in> set (actions replace_problem s)"
  then show "h replace_problem (Some replace_h) s
      \<le> 1 + h replace_problem (Some replace_h) (result replace_problem s a)"
    by (auto simp: h_def replace_problem_def replace_h_def split: if_splits)
qed

text \<open>
  With a consistent heuristic the returned path can still be longer than necessary. On
  the second test input \<^verbatim>\<open>frontier.remove(el)\<close> takes the entry of \<open>(4)\<close> out of the middle
  of the heap list; the list is no longer a heap, and two pops later \<^verbatim>\<open>heappop\<close> returns the
  node of \<open>(5)\<close> with \<open>f = 8\<close> while the node of \<open>(6)\<close> with \<open>f = 7\<close> is still in the list.
  State \<open>(5)\<close> is explored at depth 3 instead of 2, and the path returned has eight
  actions where seven suffice.
\<close>

theorem astar_search_replace_not_minimal:
  "consistent replace_problem (Some replace_h)
   \<and> admissible replace_problem (Some replace_h)
   \<and> solution_actions (astar_search replace_problem (Some replace_h))
       = Some [1, 2, 5, 10, 11, 12, 13, 14]
   \<and> legal replace_problem (start replace_problem) [6, 5, 10, 11, 12, 13, 14]
   \<and> is_goal_state replace_problem
        (foldl (result replace_problem) (start replace_problem) [6, 5, 10, 11, 12, 13, 14])
   \<and> length [6, 5, 10, 11, 12, 13, 14 :: nat] < length [1, 2, 5, 10, 11, 12, 13, 14 :: nat]"
proof -
  have "solution_actions (astar_search replace_problem (Some replace_h))
       = Some [1, 2, 5, 10, 11, 12, 13, 14]"
    by code_simp
  moreover have "legal replace_problem (start replace_problem) [6, 5, 10, 11, 12, 13, 14]"
    by code_simp
  moreover have "is_goal_state replace_problem
        (foldl (result replace_problem) (start replace_problem) [6, 5, 10, 11, 12, 13, 14])"
    by code_simp
  ultimately show ?thesis
    using replace_consistent consistent_admissible[OF replace_consistent] by simp
qed

end
